theory Spec2Isabelle
  imports Main
begin

section \<open>Regular expressions of the tokenizer\<close>

text \<open>
  The tokenizer of \<^verbatim>\<open>SqlTokenizer.js\<close> is a chain of anchored regular expressions.
  A pattern is embedded as a term of \<open>regex\<close>; \<open>backtrack r s\<close> lists, in the order
  in which the backtracking matcher of the language tries them, the rests of \<open>s\<close>
  that remain after \<open>r\<close> has matched a prefix of \<open>s\<close>. A further iteration
  of a star that consumes nothing is rejected, as the language rejects it. Strings are
  lists of \<open>char\<close>, so a code unit is a value below 256.
\<close>

datatype regex =
    Atom "char \<Rightarrow> bool"
  | Eps
  | Eos
  | Seq regex regex
  | Alt regex regex
  | Star regex
  | LazyStar regex

fun backtrack :: "regex \<Rightarrow> string \<Rightarrow> string list" where
  "backtrack (Atom P) s = (case s of [] \<Rightarrow> [] | c # cs \<Rightarrow> if P c then [cs] else [])"
| "backtrack Eps s = [s]"
| "backtrack Eos s = (if s = [] then [s] else [])"
| "backtrack (Seq a b) s = concat (map (backtrack b) (backtrack a s))"
| "backtrack (Alt a b) s = backtrack a s @ backtrack b s"
| "backtrack (Star r) s =
     concat (map (\<lambda>s'. if length s' < length s then backtrack (Star r) s' else [])
                 (backtrack r s)) @ [s]"
| "backtrack (LazyStar r) s =
     s # concat (map (\<lambda>s'. if length s' < length s then backtrack (LazyStar r) s' else [])
                     (backtrack r s))"

text \<open>
  A regular expression object of the code has the shape \<^verbatim>\<open>^(group1)follow\<close>:
  anchored at the start of the input, one leading capture group, and a pattern that
  has to match after it. \<open>match\<close> is \<^verbatim>\<open>input.match(regex)\<close> followed by the
  read of \<^verbatim>\<open>matches[1]\<close>: the text of the first capture group on the first path
  of the backtracking search on which the whole pattern matches, \<open>None\<close> when
  there is no such path (\<^verbatim>\<open>null\<close>).
\<close>

record regexp =
  group1 :: regex
  follow :: regex

definition match :: "string \<Rightarrow> regexp \<Rightarrow> string option" where
  "match input regex =
     (case filter (\<lambda>s'. backtrack (follow regex) s' \<noteq> []) (backtrack (group1 regex) input) of
        [] \<Rightarrow> None
      | s' # _ \<Rightarrow> Some (take (length input - length s') input))"

subsection \<open>Characters and character classes\<close>

text \<open>
  With the flag \<^verbatim>\<open>i\<close> two code units match when \<^verbatim>\<open>Canonicalize\<close> maps them to
  the same code unit. On values below 256 the upper-case mapping moves only
  \<^verbatim>\<open>a\<close>..\<^verbatim>\<open>z\<close> and 0xE0..0xFE without 0xF7 inside this range; 0xB5 and 0xFF go to
  code units above 255 that no value below 256 reaches, and are left in place here.
\<close>

definition Canonicalize :: "char \<Rightarrow> char" where
  "Canonicalize ch =
     (let n = (of_char ch :: nat) in
      if (97 \<le> n \<and> n \<le> 122) \<or> (224 \<le> n \<and> n \<le> 254 \<and> n \<noteq> 247)
      then char_of (n - 32) else ch)"

definition chr :: "bool \<Rightarrow> char \<Rightarrow> regex" where
  "chr i c = Atom (\<lambda>x. if i then Canonicalize x = Canonicalize c else x = c)"

definition lit :: "bool \<Rightarrow> string \<Rightarrow> regex" where
  "lit i w = foldr (\<lambda>c r. Seq (chr i c) r) w Eps"

fun alts :: "regex list \<Rightarrow> regex" where
  "alts [] = Eps"
| "alts [r] = r"
| "alts (r # rs) = Alt r (alts rs)"

definition plus :: "regex \<Rightarrow> regex" where
  "plus r = Seq r (Star r)"

definition opt :: "regex \<Rightarrow> regex" where
  "opt r = Alt r Eps"

text \<open>\<^verbatim>\<open>\s\<close>: the white space and line terminator code units below 256.\<close>

definition space :: "char \<Rightarrow> bool" where
  "space c = (c \<in> {CHR 0x09, CHR 0x0A, CHR 0x0B, CHR 0x0C, CHR 0x0D, CHR 0x20, CHR 0xA0})"

text \<open>\<^verbatim>\<open>.\<close>: any code unit but a line terminator.\<close>

definition dot :: "char \<Rightarrow> bool" where
  "dot c = (c \<notin> {CHR 0x0A, CHR 0x0D})"

definition digit :: "char \<Rightarrow> bool" where
  "digit c = (c \<in> set ''0123456789'')"

definition hexdigit :: "char \<Rightarrow> bool" where
  "hexdigit c = (c \<in> set ''0123456789abcdefABCDEF'')"

definition bindigit :: "char \<Rightarrow> bool" where
  "bindigit c = (c \<in> set ''01'')"

text \<open>\<^verbatim>\<open>[a-zA-Z0-9\._\$]\<close> of the variable rule.\<close>

definition varchar :: "char \<Rightarrow> bool" where
  "varchar c =
     (c \<in> set ''abcdefghijklmnopqrstuvwxyzABCDEFGHIJKLMNOPQRSTUVWXYZ0123456789._$'')"

definition dquote :: char where "dquote = CHR 0x22"
definition squote :: char where "squote = CHR 0x27"
definition backtick :: char where "backtick = CHR 0x60"
definition backslash :: char where "backslash = CHR 0x5C"
definition newline :: char where "newline = CHR 0x0A"

text \<open>
  \<^verbatim>\<open>boundaries\<close> of the constructor: a group that is the alternation of the
  single characters \<^verbatim>\<open>, ; : ) ( . = < > + - * / ! ^ % | & #\<close>, in this order.
\<close>

definition boundaries :: "bool \<Rightarrow> regex" where
  "boundaries i = alts (map (chr i) '',;:)(.=<>+-*/!^%|&#'')"

section \<open>The tokenizer\<close>

text \<open>
  Modelled from the spec: the module \<^verbatim>\<open>xr/sqlFormatter/sqlTokenTypes\<close> that the
  tokenizer imports is not among the sources. It is the closed enumeration of
  token kinds; the constructors are the members the tokenizer reads from it
  (the spec calls \<open>QUOTE\<close> \<^verbatim>\<open>QUOTED_STRING\<close>, \<open>BACKTICK_QUOTE\<close>
  \<^verbatim>\<open>BACKTICK_QUOTED\<close> and \<open>COMMENT\<close> \<^verbatim>\<open>LINE_COMMENT\<close>).
\<close>

datatype sqlTokenTypes =
    WHITESPACE | COMMENT | BLOCK_COMMENT | QUOTE | BACKTICK_QUOTE | VARIABLE | NUMBER
  | BOUNDARY | RESERVED_TOPLEVEL | RESERVED_NEWLINE | RESERVED | WORD

text \<open>
  A token is \<^verbatim>\<open>{type, value}\<close>. The value is a string or \<^verbatim>\<open>undefined\<close>
  (\<open>None\<close>): \<^verbatim>\<open>getQuotedStringToken\<close> stores what \<^verbatim>\<open>getQuotedString\<close> returns.
\<close>

record token =
  type :: sqlTokenTypes
  "value" :: "string option"

text \<open>
  The configuration of the constructor. The constructor joins each list with
  \<^verbatim>\<open>|\<close> into the source text of a pattern; the embedding reads every keyword as
  literal text, which is what the pattern does for a keyword without syntax
  characters of regular expressions (\<open>plain_cfg\<close>). For such keywords every
  pattern of the constructor is well formed, and \<^verbatim>\<open>new RegExp\<close> raises nothing;
  for other keywords the embedding of the keyword rules does not speak of the code.
\<close>

record cfg =
  reservedWords :: "string list"
  reservedToplevelWords :: "string list"
  reservedNewlineWords :: "string list"
  functionWords :: "string list"

definition syntax_character :: "char \<Rightarrow> bool" where
  "syntax_character c = (c \<in> set ''^$.*+?()[]{}|'' \<or> c = backslash)"

definition plain_cfg :: "cfg \<Rightarrow> bool" where
  "plain_cfg c =
     (\<forall>w \<in> set (reservedWords c @ reservedToplevelWords c @ reservedNewlineWords c
                   @ functionWords c). \<forall>x \<in> set w. \<not> syntax_character x)"

text \<open>\<^verbatim>\<open>words.join("|")\<close> inside a group; the empty list gives the empty pattern.\<close>

definition join :: "bool \<Rightarrow> string list \<Rightarrow> regex" where
  "join i words = alts (map (lit i) words)"

record tokenizer =
  WHITESPACE_REGEX :: regexp
  LINE_COMMENT_REGEX :: regexp
  BLOCK_COMMENT_REGEX :: regexp
  NUMBER_REGEX :: regexp
  BOUNDARY_REGEX :: regexp
  FUNCTION_REGEX :: regexp
  RESERVED_TOPLEVEL_REGEX :: regexp
  RESERVED_NEWLINE_REGEX :: regexp
  RESERVED_REGEX :: regexp
  NON_RESERVED_WORD_REGEX :: regexp
  STRING_REGEX :: regexp

text \<open>
  One quoted segment of the third and fourth alternative of \<^verbatim>\<open>STRING_REGEX\<close>:
  \<^verbatim>\<open>q[^q\\]*(?:\\.[^q\\]*)*(q|$)\<close> for the quote character \<open>q\<close>.
\<close>

definition quoted :: "char \<Rightarrow> regex" where
  "quoted q =
     Seq (chr False q)
      (Seq (Star (Atom (\<lambda>c. c \<noteq> q \<and> c \<noteq> backslash)))
       (Seq (Star (Seq (chr False backslash)
                   (Seq (Atom dot) (Star (Atom (\<lambda>c. c \<noteq> q \<and> c \<noteq> backslash))))))
        (Alt (chr False q) Eos)))"

text \<open>
  In the template literal of \<^verbatim>\<open>NUMBER_REGEX\<close> the escape \<^verbatim>\<open>\s\<close> after the sign
  is the letter \<^verbatim>\<open>s\<close> (the later \<^verbatim>\<open>\\s\<close> is the class), and the three quote
  characters after it stand outside brackets: they are a sequence, not a class.
\<close>

definition constructor :: "cfg \<Rightarrow> tokenizer" where
  "constructor c =
    \<lparr> WHITESPACE_REGEX = \<lparr> group1 = plus (Atom space), follow = Eps \<rparr>,
      LINE_COMMENT_REGEX =
        \<lparr> group1 = Seq (Alt (chr False (CHR ''#'')) (lit False ''--''))
                     (Seq (LazyStar (Atom dot)) (Alt (chr False newline) Eos)),
          follow = Eps \<rparr>,
      BLOCK_COMMENT_REGEX =
        \<lparr> group1 = Seq (lit False ''/*'')
                     (Seq (LazyStar (Atom (\<lambda>c. True))) (Alt (lit False ''*/'') Eos)),
          follow = Eps \<rparr>,
      NUMBER_REGEX =
        \<lparr> group1 =
            alts [Seq (opt (Seq (chr False (CHR ''-'')) (Star (chr False (CHR ''s'')))))
                   (Seq (plus (Atom digit))
                     (opt (Seq (chr False (CHR ''.'')) (plus (Atom digit))))),
                  Seq (lit False ''0x'') (plus (Atom hexdigit)),
                  Seq (lit False ''0b'') (plus (Atom bindigit))],
          follow = alts [Eos, Atom space, lit False [dquote, squote, backtick],
                         boundaries False] \<rparr>,
      BOUNDARY_REGEX = \<lparr> group1 = boundaries False, follow = Eps \<rparr>,
      FUNCTION_REGEX =
        \<lparr> group1 = join True (functionWords c), follow = chr True (CHR ''('') \<rparr>,
      RESERVED_TOPLEVEL_REGEX =
        \<lparr> group1 = join True (reservedToplevelWords c),
          follow = alts [Eos, Atom space, boundaries True] \<rparr>,
      RESERVED_NEWLINE_REGEX =
        \<lparr> group1 = join True (reservedNewlineWords c),
          follow = alts [Eos, Atom space, boundaries True] \<rparr>,
      RESERVED_REGEX =
        \<lparr> group1 = join True (reservedWords c),
          follow = alts [Eos, Atom space, boundaries True] \<rparr>,
      NON_RESERVED_WORD_REGEX =
        \<lparr> group1 = LazyStar (Atom dot),
          follow = alts [Eos, Atom space, Atom (\<lambda>c. c \<in> {dquote, squote, backtick}),
                         boundaries False] \<rparr>,
      STRING_REGEX =
        \<lparr> group1 =
            alts [plus (Seq (chr False backtick)
                        (Seq (Star (Atom (\<lambda>c. c \<noteq> backtick))) (Alt Eos (chr False backtick)))),
                  Seq (Seq (chr False (CHR ''['')) (Seq (Star (Atom (\<lambda>c. c \<noteq> CHR '']'')))
                                                     (Alt Eos (chr False (CHR '']'')))))
                      (Star (Seq (chr False (CHR '']''))
                                 (Seq (Star (Atom (\<lambda>c. c \<noteq> CHR '']'')))
                                      (Alt Eos (chr False (CHR '']'')))))),
                  plus (quoted dquote),
                  plus (quoted squote)],
          follow = Eps \<rparr> \<rparr>"

definition getTokenOnFirstMatch :: "string \<Rightarrow> sqlTokenTypes \<Rightarrow> regexp \<Rightarrow> token option" where
  "getTokenOnFirstMatch input ty regex =
     (case match input regex of
        None \<Rightarrow> None
      | Some m \<Rightarrow> Some \<lparr> type = ty, value = Some m \<rparr>)"

definition getQuotedString :: "tokenizer \<Rightarrow> string \<Rightarrow> string option" where
  "getQuotedString t input = match input (STRING_REGEX t)"

definition getWhitespaceToken :: "tokenizer \<Rightarrow> string \<Rightarrow> token option" where
  "getWhitespaceToken t input = getTokenOnFirstMatch input WHITESPACE (WHITESPACE_REGEX t)"

definition getLineCommentToken :: "tokenizer \<Rightarrow> string \<Rightarrow> token option" where
  "getLineCommentToken t input = getTokenOnFirstMatch input COMMENT (LINE_COMMENT_REGEX t)"

definition getBlockCommentToken :: "tokenizer \<Rightarrow> string \<Rightarrow> token option" where
  "getBlockCommentToken t input =
     getTokenOnFirstMatch input BLOCK_COMMENT (BLOCK_COMMENT_REGEX t)"

definition getCommentToken :: "tokenizer \<Rightarrow> string \<Rightarrow> token option" where
  "getCommentToken t input =
     (case getLineCommentToken t input of
        Some tok \<Rightarrow> Some tok
      | None \<Rightarrow> getBlockCommentToken t input)"

definition getQuotedStringToken :: "tokenizer \<Rightarrow> string \<Rightarrow> token option" where
  "getQuotedStringToken t input =
     (case input of
        [] \<Rightarrow> None
      | firstChar # _ \<Rightarrow>
          if firstChar = dquote \<or> firstChar = squote \<or> firstChar = backtick
             \<or> firstChar = CHR ''[''
          then Some \<lparr> type = (if firstChar = backtick \<or> firstChar = CHR ''[''
                               then BACKTICK_QUOTE else QUOTE),
                      value = getQuotedString t input \<rparr>
          else None)"

text \<open>
  String concatenation with \<^verbatim>\<open>undefined\<close> appends the text \<^verbatim>\<open>undefined\<close>.
\<close>

definition concat_undefined :: "string \<Rightarrow> string option \<Rightarrow> string" where
  "concat_undefined a b = a @ (case b of None \<Rightarrow> ''undefined'' | Some s \<Rightarrow> s)"

definition getVariableToken :: "tokenizer \<Rightarrow> string \<Rightarrow> token option" where
  "getVariableToken t input =
     (case input of
        c0 # c1 # _ \<Rightarrow>
          if c0 = CHR ''@'' \<or> c0 = CHR '':''
          then if c1 = dquote \<or> c1 = squote \<or> c1 = backtick
               then Some \<lparr> type = VARIABLE,
                           value = Some (concat_undefined [c0] (getQuotedString t (drop 1 input))) \<rparr>
               else getTokenOnFirstMatch input VARIABLE
                      \<lparr> group1 = Seq (chr False c0) (plus (Atom varchar)), follow = Eps \<rparr>
          else None
      | _ \<Rightarrow> None)"

definition getNumberToken :: "tokenizer \<Rightarrow> string \<Rightarrow> token option" where
  "getNumberToken t input = getTokenOnFirstMatch input NUMBER (NUMBER_REGEX t)"

definition getBoundaryCharacterToken :: "tokenizer \<Rightarrow> string \<Rightarrow> token option" where
  "getBoundaryCharacterToken t input = getTokenOnFirstMatch input BOUNDARY (BOUNDARY_REGEX t)"

definition getReservedWordToken :: "tokenizer \<Rightarrow> string \<Rightarrow> token option \<Rightarrow> token option" where
  "getReservedWordToken t input previousToken =
     (if (case previousToken of
            None \<Rightarrow> False
          | Some p \<Rightarrow> (case value p of None \<Rightarrow> False | Some v \<Rightarrow> v \<noteq> [] \<and> v = ''.''))
      then None
      else (case getTokenOnFirstMatch input RESERVED_TOPLEVEL (RESERVED_TOPLEVEL_REGEX t) of
              Some toplevelReservedWordToken \<Rightarrow> Some toplevelReservedWordToken
            | None \<Rightarrow>
               (case getTokenOnFirstMatch input RESERVED_NEWLINE (RESERVED_NEWLINE_REGEX t) of
                  Some newlineReservedWordToken \<Rightarrow> Some newlineReservedWordToken
                | None \<Rightarrow> getTokenOnFirstMatch input RESERVED (RESERVED_REGEX t))))"

definition getFunctionWordToken :: "tokenizer \<Rightarrow> string \<Rightarrow> token option" where
  "getFunctionWordToken t input = getTokenOnFirstMatch input RESERVED (FUNCTION_REGEX t)"

definition getNonReservedWordToken :: "tokenizer \<Rightarrow> string \<Rightarrow> token option" where
  "getNonReservedWordToken t input =
     getTokenOnFirstMatch input WORD (NON_RESERVED_WORD_REGEX t)"

text \<open>The chain of \<^verbatim>\<open>||\<close>: the first matcher that returns an object wins.\<close>

definition getNextToken :: "tokenizer \<Rightarrow> string \<Rightarrow> token option \<Rightarrow> token option" where
  "getNextToken t input previousToken =
     (case getWhitespaceToken t input of Some tok \<Rightarrow> Some tok | None \<Rightarrow>
     (case getCommentToken t input of Some tok \<Rightarrow> Some tok | None \<Rightarrow>
     (case getQuotedStringToken t input of Some tok \<Rightarrow> Some tok | None \<Rightarrow>
     (case getVariableToken t input of Some tok \<Rightarrow> Some tok | None \<Rightarrow>
     (case getNumberToken t input of Some tok \<Rightarrow> Some tok | None \<Rightarrow>
     (case getBoundaryCharacterToken t input of Some tok \<Rightarrow> Some tok | None \<Rightarrow>
     (case getReservedWordToken t input previousToken of Some tok \<Rightarrow> Some tok | None \<Rightarrow>
     (case getFunctionWordToken t input of Some tok \<Rightarrow> Some tok | None \<Rightarrow>
      getNonReservedWordToken t input))))))))"

text \<open>
  The only failure of \<^verbatim>\<open>tokenize\<close> is the \<^verbatim>\<open>TypeError\<close> of reading
  \<^verbatim>\<open>token.value.length\<close> when the token or its value is \<^verbatim>\<open>undefined\<close>; the code
  raises nothing itself. The loop has no bound of its own: it is a partial function,
  \<open>None\<close> standing for a run that never ends.
\<close>

datatype error = TypeError

partial_function (option) tokenize_loop ::
  "tokenizer \<Rightarrow> string \<Rightarrow> token option \<Rightarrow> token list \<Rightarrow> (error + token list) option"
where
  "tokenize_loop t input token tokens =
     (if input = [] then Some (Inr tokens)
      else (case getNextToken t input token of
              None \<Rightarrow> Some (Inl TypeError)
            | Some tok \<Rightarrow>
               (case value tok of
                  None \<Rightarrow> Some (Inl TypeError)
                | Some v \<Rightarrow>
                    tokenize_loop t (drop (length v) input) (Some tok) (tokens @ [tok]))))"

declare tokenize_loop.simps [code]

definition tokenize :: "tokenizer \<Rightarrow> string \<Rightarrow> (error + token list) option" where
  "tokenize t input = tokenize_loop t input None []"

section \<open>Notions used in the proofs\<close>

text \<open>\<open>nullable r\<close>: the pattern \<open>r\<close> can match the empty text.\<close>

fun nullable :: "regex \<Rightarrow> bool" where
  "nullable (Atom P) = False"
| "nullable Eps = True"
| "nullable Eos = True"
| "nullable (Seq a b) = (nullable a \<and> nullable b)"
| "nullable (Alt a b) = (nullable a \<or> nullable b)"
| "nullable (Star r) = True"
| "nullable (LazyStar r) = True"

text \<open>A code unit that \<open>Canonicalize\<close> neither moves nor reaches.\<close>

definition caseless :: "char \<Rightarrow> bool" where
  "caseless c =
     (let n = (of_char c :: nat) in
      \<not> (65 \<le> n \<and> n \<le> 90) \<and> \<not> (97 \<le> n \<and> n \<le> 122) \<and> \<not> (192 \<le> n \<and> n \<le> 254))"

definition boundary_char :: "char \<Rightarrow> bool" where
  "boundary_char c = (c \<in> set '',;:)(.=<>+-*/!^%|&#'')"

text \<open>
  The loop of \<^verbatim>\<open>tokenize\<close> cut off after \<open>n\<close> iterations: \<open>None\<close> when
  one more iteration would be needed.
\<close>

fun tokenize_steps ::
  "nat \<Rightarrow> tokenizer \<Rightarrow> string \<Rightarrow> token option \<Rightarrow> token list \<Rightarrow> (error + token list) option"
where
  "tokenize_steps 0 t input token tokens = (if input = [] then Some (Inr tokens) else None)"
| "tokenize_steps (Suc n) t input token tokens =
     (if input = [] then Some (Inr tokens)
      else (case getNextToken t input token of
              None \<Rightarrow> Some (Inl TypeError)
            | Some tok \<Rightarrow>
               (case value tok of
                  None \<Rightarrow> Some (Inl TypeError)
                | Some v \<Rightarrow>
                    tokenize_steps n t (drop (length v) input) (Some tok) (tokens @ [tok]))))"

text \<open>
  \<open>lit_matches i w s\<close>: the literal \<open>w\<close> matches a prefix of \<open>s\<close>;
  \<open>ci_eq\<close>: two texts are equal up to letter case.
\<close>

fun lit_matches :: "bool \<Rightarrow> string \<Rightarrow> string \<Rightarrow> bool" where
  "lit_matches i [] s = True"
| "lit_matches i (c # w) [] = False"
| "lit_matches i (c # w) (x # s) =
     ((if i then Canonicalize x = Canonicalize c else x = c) \<and> lit_matches i w s)"

definition ci_eq :: "string \<Rightarrow> string \<Rightarrow> bool" where
  "ci_eq a b = (map Canonicalize a = map Canonicalize b)"

text \<open>The alternatives of a joined keyword list: the empty list joins to one empty alternative.\<close>

definition alternatives :: "string list \<Rightarrow> string list" where
  "alternatives words = (if words = [] then [[]] else words)"

text \<open>All keywords of the three reserved-word lists.\<close>

definition reserved_keywords :: "cfg \<Rightarrow> string list" where
  "reserved_keywords c = reservedToplevelWords c @ reservedNewlineWords c @ reservedWords c"

text \<open>None of the six matchers that come before the keyword rules matches.\<close>

definition no_early_match :: "tokenizer \<Rightarrow> string \<Rightarrow> bool" where
  "no_early_match t input =
     (getWhitespaceToken t input = None \<and> getCommentToken t input = None
      \<and> getQuotedStringToken t input = None \<and> getVariableToken t input = None
      \<and> getNumberToken t input = None \<and> getBoundaryCharacterToken t input = None)"

text \<open>
  Where a keyword may end: at the end of the input, before white space or before a
  boundary character (the pattern after the group of the reserved-word rules); and
  where a function name may end: before an opening parenthesis. \<open>candidates E s\<close>
  are the prefixes of \<open>s\<close> that end at such a place.
\<close>

definition word_end :: "string \<Rightarrow> bool" where
  "word_end s = (s = [] \<or> space (hd s) \<or> boundary_char (hd s))"

definition open_paren :: "string \<Rightarrow> bool" where
  "open_paren s = (s \<noteq> [] \<and> hd s = CHR ''('')"

definition candidates :: "(string \<Rightarrow> bool) \<Rightarrow> string \<Rightarrow> string list" where
  "candidates E s = map (\<lambda>n. take n s) (filter (\<lambda>n. E (drop n s)) [0..<Suc (length s)])"


text \<open>The text of a token; a token without one contributes nothing.\<close>

definition token_text :: "token \<Rightarrow> string" where
  "token_text tok = (case value tok of None \<Rightarrow> [] | Some v \<Rightarrow> v)"

text \<open>
  \<open>first_path r s x\<close>: the first path on which \<open>r\<close> matches a prefix of \<open>s\<close> leaves
  the rest \<open>x\<close>. \<open>segments q segs\<close>: the adjacent segments with the contents
  \<open>segs\<close>, each between two delimiters \<open>q\<close>.
\<close>

definition first_path :: "regex \<Rightarrow> string \<Rightarrow> string \<Rightarrow> bool" where
  "first_path r s x = (\<exists>ys. backtrack r s = x # ys)"

definition segments :: "char \<Rightarrow> string list \<Rightarrow> string" where
  "segments q segs = concat (map (\<lambda>a. q # a @ [q]) segs)"

section \<open>The backtracking matcher\<close>

declare backtrack.simps(6,7) [simp del]

lemma in_backtrack_Star:
  "s' \<in> set (backtrack (Star r) s) \<longleftrightarrow>
     s' = s \<or> (\<exists>m \<in> set (backtrack r s). length m < length s \<and> s' \<in> set (backtrack (Star r) m))"
  by (subst backtrack.simps(6)) auto

lemma in_backtrack_LazyStar:
  "s' \<in> set (backtrack (LazyStar r) s) \<longleftrightarrow>
     s' = s \<or> (\<exists>m \<in> set (backtrack r s). length m < length s \<and> s' \<in> set (backtrack (LazyStar r) m))"
  by (subst backtrack.simps(7)) auto

lemma backtrack_suffix: "s' \<in> set (backtrack r s) \<Longrightarrow> \<exists>p. s = p @ s'"
proof (induction r s arbitrary: s' rule: backtrack.induct)
  case (1 P s)
  then show ?case by (auto split: list.splits if_splits)
next
  case (4 a b s)
  from "4.prems" obtain m where m: "m \<in> set (backtrack a s)" and s': "s' \<in> set (backtrack b m)"
    by auto
  from "4.IH"(1)[OF m] obtain p where p: "s = p @ m" by blast
  from "4.IH"(2)[OF m s'] obtain q where "m = q @ s'" by blast
  with p show ?case by auto
next
  case (6 r s)
  show ?case
  proof (cases "s' = s")
    case True then show ?thesis by simp
  next
    case False
    with "6.prems" obtain m where m: "m \<in> set (backtrack r s)" and lt: "length m < length s"
      and s': "s' \<in> set (backtrack (Star r) m)"
      using in_backtrack_Star[of s' r s] by blast
    from "6.IH"(1)[OF m] obtain p where p: "s = p @ m" by blast
    from "6.IH"(2)[OF m lt s'] obtain q where "m = q @ s'" by blast
    with p show ?thesis by auto
  qed
next
  case (7 r s)
  show ?case
  proof (cases "s' = s")
    case True then show ?thesis by simp
  next
    case False
    with "7.prems" obtain m where m: "m \<in> set (backtrack r s)" and lt: "length m < length s"
      and s': "s' \<in> set (backtrack (LazyStar r) m)"
      using in_backtrack_LazyStar[of s' r s] by blast
    from "7.IH"(1)[OF m] obtain p where p: "s = p @ m" by blast
    from "7.IH"(2)[OF m lt s'] obtain q where "m = q @ s'" by blast
    with p show ?thesis by auto
  qed
qed (auto split: if_splits)

lemma backtrack_length: "s' \<in> set (backtrack r s) \<Longrightarrow> length s' \<le> length s"
  using backtrack_suffix by fastforce

lemma backtrack_proper:
  "\<not> nullable r \<Longrightarrow> s' \<in> set (backtrack r s) \<Longrightarrow> length s' < length s"
proof (induction r arbitrary: s s')
  case (Atom P)
  then show ?case by (auto split: list.splits if_splits)
next
  case (Seq a b)
  from Seq.prems(2) obtain m where m: "m \<in> set (backtrack a s)" and s': "s' \<in> set (backtrack b m)"
    by auto
  have l1: "length m \<le> length s" and l2: "length s' \<le> length m"
    using m s' backtrack_length by blast+
  from Seq.prems(1) have "\<not> nullable a \<or> \<not> nullable b" by simp
  then show ?case
  proof
    assume "\<not> nullable a"
    from Seq.IH(1)[OF this m] l2 show ?thesis by simp
  next
    assume "\<not> nullable b"
    from Seq.IH(2)[OF this s'] l1 show ?thesis by simp
  qed
next
  case (Alt a b)
  then show ?case by auto
qed simp_all

lemma match_SomeD:
  assumes "match input re = Some v"
  shows "\<exists>s'. input = v @ s' \<and> s' \<in> set (backtrack (group1 re) input)
              \<and> backtrack (follow re) s' \<noteq> []"
proof -
  from assms obtain s' rest where
    f: "filter (\<lambda>s'. backtrack (follow re) s' \<noteq> []) (backtrack (group1 re) input) = s' # rest"
    and v: "v = take (length input - length s') input"
    by (auto simp: match_def split: list.splits)
  have "s' \<in> set (filter (\<lambda>s'. backtrack (follow re) s' \<noteq> []) (backtrack (group1 re) input))"
    by (simp add: f)
  then have mem: "s' \<in> set (backtrack (group1 re) input)" and fol: "backtrack (follow re) s' \<noteq> []"
    by auto
  from backtrack_suffix[OF mem] obtain p where "input = p @ s'" by blast
  with v have "input = v @ s'" by simp
  with mem fol show ?thesis by blast
qed

lemma match_nonempty:
  "match input re = Some v \<Longrightarrow> \<not> nullable (group1 re) \<Longrightarrow> v \<noteq> []"
  using match_SomeD[of input re v] backtrack_proper[of "group1 re" _ input] by fastforce

section \<open>Character classes\<close>

lemma Canonicalize_caseless:
  assumes "caseless c"
  shows "Canonicalize x = Canonicalize c \<longleftrightarrow> x = c"
proof -
  have c: "Canonicalize c = c"
    using assms by (auto simp: caseless_def Canonicalize_def Let_def)
  show ?thesis
  proof
    assume eq: "Canonicalize x = Canonicalize c"
    show "x = c"
    proof (rule ccontr)
      assume ne: "x \<noteq> c"
      with eq c have moved: "Canonicalize x \<noteq> x" by auto
      define n where "n = (of_char x :: nat)"
      from moved have rng: "(97 \<le> n \<and> n \<le> 122) \<or> (224 \<le> n \<and> n \<le> 254 \<and> n \<noteq> 247)"
        and cx: "Canonicalize x = char_of (n - 32)"
        by (auto simp: Canonicalize_def Let_def n_def split: if_splits)
      from eq c cx have "of_char c = (of_char (char_of (n - 32) :: char) :: nat)" by simp
      also have "\<dots> = (n - 32) mod 256" by simp
      also have "\<dots> = n - 32" using rng by auto
      finally have "(of_char c :: nat) = n - 32" .
      with rng assms show False by (auto simp: caseless_def Let_def)
    qed
  next
    assume "x = c" then show "Canonicalize x = Canonicalize c" by simp
  qed
qed

lemma backtrack_chr_caseless:
  "caseless c \<Longrightarrow> backtrack (chr i c) s = (case s of [] \<Rightarrow> [] | x # xs \<Rightarrow> if x = c then [xs] else [])"
  by (cases s) (simp_all add: chr_def Canonicalize_caseless)

lemma backtrack_boundaries_Nil: "backtrack (boundaries i) [] = []"
  by (simp add: boundaries_def chr_def)

lemma backtrack_boundaries_Cons:
  "backtrack (boundaries i) (c # cs) = (if boundary_char c then [cs] else [])"
proof -
  have cl: "\<And>b x. caseless b \<Longrightarrow> backtrack (chr i b) (x # cs) = (if x = b then [cs] else [])"
    by (simp add: backtrack_chr_caseless)
  have bs: "caseless (CHR '','')" "caseless (CHR '';'')" "caseless (CHR '':'')"
    "caseless (CHR '')'')" "caseless (CHR ''('')" "caseless (CHR ''.'')" "caseless (CHR ''='')"
    "caseless (CHR ''<'')" "caseless (CHR ''>'')" "caseless (CHR ''+'')" "caseless (CHR ''-'')"
    "caseless (CHR ''*'')" "caseless (CHR ''/'')" "caseless (CHR ''!'')" "caseless (CHR ''^'')"
    "caseless (CHR ''%'')" "caseless (CHR ''|'')" "caseless (CHR ''&'')" "caseless (CHR ''#'')"
    by (simp_all add: caseless_def)
  show ?thesis
  proof (cases "boundary_char c")
    case False
    then show ?thesis
      by (simp add: boundaries_def cl bs boundary_char_def)
  next
    case True
    then have "c = CHR '','' \<or> c = CHR '';'' \<or> c = CHR '':'' \<or> c = CHR '')'' \<or> c = CHR ''(''
      \<or> c = CHR ''.'' \<or> c = CHR ''='' \<or> c = CHR ''<'' \<or> c = CHR ''>'' \<or> c = CHR ''+''
      \<or> c = CHR ''-'' \<or> c = CHR ''*'' \<or> c = CHR ''/'' \<or> c = CHR ''!'' \<or> c = CHR ''^''
      \<or> c = CHR ''%'' \<or> c = CHR ''|'' \<or> c = CHR ''&'' \<or> c = CHR ''#''"
      by (simp add: boundary_char_def)
    then show ?thesis
      by (elim disjE) (simp_all add: boundaries_def cl bs boundary_char_def)
  qed
qed

lemma backtrack_Star_nonempty: "backtrack (Star r) s \<noteq> []"
  by (subst backtrack.simps(6)) simp

lemma match_eq_None_iff:
  "match input re = None \<longleftrightarrow>
     (\<forall>s' \<in> set (backtrack (group1 re) input). backtrack (follow re) s' = [])"
proof -
  have "match input re = None \<longleftrightarrow>
        filter (\<lambda>s'. backtrack (follow re) s' \<noteq> []) (backtrack (group1 re) input) = []"
    by (simp add: match_def split: list.splits)
  then show ?thesis by (simp add: filter_empty_conv)
qed

lemma follow_keyword:
  "backtrack (alts [Eos, Atom space, boundaries i]) s \<noteq> [] \<longleftrightarrow>
     s = [] \<or> space (hd s) \<or> boundary_char (hd s)"
  by (cases s) (simp_all add: backtrack_boundaries_Nil backtrack_boundaries_Cons)

lemma follow_word:
  "backtrack (alts [Eos, Atom space, Atom (\<lambda>c. c \<in> {dquote, squote, backtick}),
                    boundaries False]) s \<noteq> [] \<longleftrightarrow>
     s = [] \<or> space (hd s) \<or> hd s \<in> {dquote, squote, backtick} \<or> boundary_char (hd s)"
  by (cases s) (simp_all add: backtrack_boundaries_Nil backtrack_boundaries_Cons)

lemma follow_paren:
  "backtrack (chr True (CHR ''('')) s \<noteq> [] \<longleftrightarrow> s \<noteq> [] \<and> hd s = CHR ''(''"
proof -
  have "caseless (CHR ''('')" by (simp add: caseless_def)
  then show ?thesis by (cases s) (simp_all add: backtrack_chr_caseless)
qed

lemma constructor_simps:
  "WHITESPACE_REGEX (constructor c) = \<lparr> group1 = plus (Atom space), follow = Eps \<rparr>"
  "BOUNDARY_REGEX (constructor c) = \<lparr> group1 = boundaries False, follow = Eps \<rparr>"
  "FUNCTION_REGEX (constructor c) =
     \<lparr> group1 = join True (functionWords c), follow = chr True (CHR ''('') \<rparr>"
  "RESERVED_TOPLEVEL_REGEX (constructor c) =
     \<lparr> group1 = join True (reservedToplevelWords c),
       follow = alts [Eos, Atom space, boundaries True] \<rparr>"
  "RESERVED_NEWLINE_REGEX (constructor c) =
     \<lparr> group1 = join True (reservedNewlineWords c),
       follow = alts [Eos, Atom space, boundaries True] \<rparr>"
  "RESERVED_REGEX (constructor c) =
     \<lparr> group1 = join True (reservedWords c),
       follow = alts [Eos, Atom space, boundaries True] \<rparr>"
  "NON_RESERVED_WORD_REGEX (constructor c) =
     \<lparr> group1 = LazyStar (Atom dot),
       follow = alts [Eos, Atom space, Atom (\<lambda>c. c \<in> {dquote, squote, backtick}),
                      boundaries False] \<rparr>"
  by (simp_all add: constructor_def)

lemma whitespace_matches:
  assumes "space c"
  shows "getWhitespaceToken (constructor k) (c # cs) \<noteq> None"
proof -
  obtain s' where "s' \<in> set (backtrack (Star (Atom space)) cs)"
    using backtrack_Star_nonempty[of "Atom space" cs] by (cases "backtrack (Star (Atom space)) cs") auto
  with assms have "s' \<in> set (backtrack (plus (Atom space)) (c # cs))"
    by (simp add: plus_def)
  then have "match (c # cs) \<lparr> group1 = plus (Atom space), follow = Eps \<rparr> \<noteq> None"
    by (auto simp: match_eq_None_iff)
  then show ?thesis
    by (auto simp: getWhitespaceToken_def getTokenOnFirstMatch_def constructor_simps)
qed

lemma boundary_matches:
  assumes "boundary_char c"
  shows "getBoundaryCharacterToken (constructor k) (c # cs) \<noteq> None"
proof -
  from assms have "match (c # cs) \<lparr> group1 = boundaries False, follow = Eps \<rparr> \<noteq> None"
    by (simp add: match_eq_None_iff backtrack_boundaries_Cons)
  then show ?thesis
    by (auto simp: getBoundaryCharacterToken_def getTokenOnFirstMatch_def constructor_simps)
qed

lemma quoted_matches:
  "c \<in> {dquote, squote, backtick} \<Longrightarrow> getQuotedStringToken t (c # cs) \<noteq> None"
  by (auto simp: getQuotedStringToken_def)

lemma word_rule_reaches:
  "\<exists>s' \<in> set (backtrack (LazyStar (Atom dot)) s). s' = [] \<or> space (hd s')"
proof (induction s)
  case Nil
  show ?case by (subst backtrack.simps(7)) simp
next
  case (Cons c cs)
  show ?case
  proof (cases "space c")
    case True
    have "c # cs \<in> set (backtrack (LazyStar (Atom dot)) (c # cs))"
      by (subst backtrack.simps(7)) simp
    with True show ?thesis by (intro bexI[of _ "c # cs"]) simp_all
  next
    case False
    then have d: "dot c" unfolding space_def dot_def by blast
    from Cons.IH obtain s' where s': "s' \<in> set (backtrack (LazyStar (Atom dot)) cs)"
      and e: "s' = [] \<or> space (hd s')" by blast
    from d have "cs \<in> set (backtrack (Atom dot) (c # cs))" by simp
    moreover have "length cs < length (c # cs)" by simp
    ultimately have "s' \<in> set (backtrack (LazyStar (Atom dot)) (c # cs))"
      using s' in_backtrack_LazyStar[of s' "Atom dot" "c # cs"] by blast
    with e show ?thesis by blast
  qed
qed

lemma word_matches: "getNonReservedWordToken (constructor k) s \<noteq> None"
proof -
  let ?F = "alts [Eos, Atom space, Atom (\<lambda>c. c \<in> {dquote, squote, backtick}), boundaries False]"
  let ?R = "NON_RESERVED_WORD_REGEX (constructor k)"
  have g: "group1 ?R = LazyStar (Atom dot)" and f: "follow ?R = ?F"
    by (simp_all only: constructor_simps regexp.simps)
  from word_rule_reaches[of s] obtain s' where s': "s' \<in> set (backtrack (LazyStar (Atom dot)) s)"
    and e: "s' = [] \<or> space (hd s')" by blast
  from e have "backtrack ?F s' \<noteq> []"
    by (simp only: follow_word) blast
  with s' have "match s ?R \<noteq> None"
    unfolding match_eq_None_iff g f by blast
  then show ?thesis
    by (simp add: getNonReservedWordToken_def getTokenOnFirstMatch_def split: option.splits)
qed

section \<open>Every step of the scan advances\<close>

text \<open>
  The keyword rules of the embedding are those of the code for plain keywords only;
  the lemmas on the chain and the loop as a whole assume \<open>plain_cfg\<close>.
\<close>

lemma nullable_rules:
  "\<not> nullable (group1 (WHITESPACE_REGEX (constructor k)))"
  "\<not> nullable (group1 (LINE_COMMENT_REGEX (constructor k)))"
  "\<not> nullable (group1 (BLOCK_COMMENT_REGEX (constructor k)))"
  "\<not> nullable (group1 (NUMBER_REGEX (constructor k)))"
  "\<not> nullable (group1 (BOUNDARY_REGEX (constructor k)))"
  "\<not> nullable (group1 (STRING_REGEX (constructor k)))"
  by (simp_all add: constructor_def plus_def opt_def lit_def chr_def quoted_def boundaries_def)

lemma getTokenOnFirstMatch_value:
  "getTokenOnFirstMatch input ty re = Some tok \<Longrightarrow> \<exists>v. value tok = Some v \<and> match input re = Some v"
  by (auto simp: getTokenOnFirstMatch_def split: option.splits)

lemma getTokenOnFirstMatch_nonempty:
  "getTokenOnFirstMatch input ty re = Some tok \<Longrightarrow> \<not> nullable (group1 re) \<Longrightarrow>
   value tok \<noteq> Some []"
  using getTokenOnFirstMatch_value[of input ty re tok] match_nonempty[of input re] by fastforce

lemma whitespace_nonempty:
  "getWhitespaceToken (constructor k) input = Some tok \<Longrightarrow> value tok \<noteq> Some []"
  unfolding getWhitespaceToken_def by (rule getTokenOnFirstMatch_nonempty[OF _ nullable_rules(1)])

lemma comment_nonempty:
  "getCommentToken (constructor k) input = Some tok \<Longrightarrow> value tok \<noteq> Some []"
  unfolding getCommentToken_def getLineCommentToken_def getBlockCommentToken_def
  by (auto split: option.splits
      dest: getTokenOnFirstMatch_nonempty[OF _ nullable_rules(2)]
            getTokenOnFirstMatch_nonempty[OF _ nullable_rules(3)])

lemma number_nonempty:
  "getNumberToken (constructor k) input = Some tok \<Longrightarrow> value tok \<noteq> Some []"
  unfolding getNumberToken_def by (rule getTokenOnFirstMatch_nonempty[OF _ nullable_rules(4)])

lemma boundary_nonempty:
  "getBoundaryCharacterToken (constructor k) input = Some tok \<Longrightarrow> value tok \<noteq> Some []"
  unfolding getBoundaryCharacterToken_def
  by (rule getTokenOnFirstMatch_nonempty[OF _ nullable_rules(5)])

lemma getQuotedString_nonempty:
  "getQuotedString (constructor k) input \<noteq> Some []"
  unfolding getQuotedString_def using match_nonempty[OF _ nullable_rules(6)] by blast

lemma quoted_nonempty:
  "getQuotedStringToken (constructor k) input = Some tok \<Longrightarrow> value tok \<noteq> Some []"
  using getQuotedString_nonempty[of k input]
  by (auto simp: getQuotedStringToken_def split: list.splits if_splits)

lemma variable_nonempty:
  assumes "getVariableToken t input = Some tok"
  shows "value tok \<noteq> Some []"
proof -
  from assms obtain c0 c1 rest where i: "input = c0 # c1 # rest"
    by (cases input; cases "tl input") (auto simp: getVariableToken_def)
  show ?thesis
  proof (cases "c1 = dquote \<or> c1 = squote \<or> c1 = backtick")
    case True
    with assms i show ?thesis
      by (auto simp: getVariableToken_def concat_undefined_def split: if_splits)
  next
    case False
    with assms i have
      "getTokenOnFirstMatch input VARIABLE
         \<lparr> group1 = Seq (chr False c0) (plus (Atom varchar)), follow = Eps \<rparr> = Some tok"
      by (auto simp: getVariableToken_def split: if_splits)
    then show ?thesis
      by (rule getTokenOnFirstMatch_nonempty) (simp add: chr_def)
  qed
qed

lemma keyword_empty_match:
  assumes "match input \<lparr> group1 = g, follow = alts [Eos, Atom space, boundaries True] \<rparr> = Some []"
  shows "input = [] \<or> space (hd input) \<or> boundary_char (hd input)"
proof -
  from match_SomeD[OF assms] have
    "backtrack (alts [Eos, Atom space, boundaries True]) input \<noteq> []"
    by (simp only: regexp.simps append_Nil) blast
  then show ?thesis using follow_keyword[of True input] by blast
qed

lemma function_empty_match:
  assumes "match input \<lparr> group1 = g, follow = chr True (CHR ''('') \<rparr> = Some []"
  shows "input \<noteq> [] \<and> boundary_char (hd input)"
proof -
  from match_SomeD[OF assms] have "backtrack (chr True (CHR ''('')) input \<noteq> []"
    by (simp only: regexp.simps append_Nil) blast
  then have "input \<noteq> [] \<and> hd input = CHR ''(''" using follow_paren[of input] by blast
  then show ?thesis by (simp add: boundary_char_def)
qed

lemma word_empty_match:
  assumes "match input (NON_RESERVED_WORD_REGEX (constructor k)) = Some []"
  shows "input = [] \<or> space (hd input) \<or> hd input \<in> {dquote, squote, backtick}
         \<or> boundary_char (hd input)"
proof -
  let ?F = "alts [Eos, Atom space, Atom (\<lambda>c. c \<in> {dquote, squote, backtick}), boundaries False]"
  have f: "follow (NON_RESERVED_WORD_REGEX (constructor k)) = ?F"
    by (simp only: constructor_simps regexp.simps)
  from match_SomeD[OF assms] have "backtrack ?F input \<noteq> []"
    unfolding f by (simp only: append_Nil) blast
  then show ?thesis using follow_word[of input] by blast
qed

lemma reserved_nonempty:
  assumes "getReservedWordToken (constructor k) input prev = Some tok"
    and "value tok = Some []"
  shows "input = [] \<or> space (hd input) \<or> boundary_char (hd input)"
proof -
  from assms(1) consider
      "getTokenOnFirstMatch input RESERVED_TOPLEVEL (RESERVED_TOPLEVEL_REGEX (constructor k)) = Some tok"
    | "getTokenOnFirstMatch input RESERVED_NEWLINE (RESERVED_NEWLINE_REGEX (constructor k)) = Some tok"
    | "getTokenOnFirstMatch input RESERVED (RESERVED_REGEX (constructor k)) = Some tok"
    by (auto simp: getReservedWordToken_def split: if_splits option.splits)
  then show ?thesis
  proof cases
    case 1
    from getTokenOnFirstMatch_value[OF 1] assms(2)
    have "match input (RESERVED_TOPLEVEL_REGEX (constructor k)) = Some []" by auto
    then show ?thesis unfolding constructor_simps by (rule keyword_empty_match)
  next
    case 2
    from getTokenOnFirstMatch_value[OF 2] assms(2)
    have "match input (RESERVED_NEWLINE_REGEX (constructor k)) = Some []" by auto
    then show ?thesis unfolding constructor_simps by (rule keyword_empty_match)
  next
    case 3
    from getTokenOnFirstMatch_value[OF 3] assms(2)
    have "match input (RESERVED_REGEX (constructor k)) = Some []" by auto
    then show ?thesis unfolding constructor_simps by (rule keyword_empty_match)
  qed
qed

lemma function_nonempty:
  assumes "getFunctionWordToken (constructor k) input = Some tok"
    and "value tok = Some []"
  shows "input \<noteq> [] \<and> boundary_char (hd input)"
proof -
  from assms(1) have
    "getTokenOnFirstMatch input RESERVED (FUNCTION_REGEX (constructor k)) = Some tok"
    by (simp add: getFunctionWordToken_def)
  from getTokenOnFirstMatch_value[OF this] assms(2)
  have "match input (FUNCTION_REGEX (constructor k)) = Some []" by auto
  then show ?thesis unfolding constructor_simps by (rule function_empty_match)
qed

lemma word_nonempty:
  assumes "getNonReservedWordToken (constructor k) input = Some tok"
    and "value tok = Some []"
  shows "input = [] \<or> space (hd input) \<or> hd input \<in> {dquote, squote, backtick}
         \<or> boundary_char (hd input)"
proof -
  from assms(1) have
    "getTokenOnFirstMatch input WORD (NON_RESERVED_WORD_REGEX (constructor k)) = Some tok"
    by (simp add: getNonReservedWordToken_def)
  from getTokenOnFirstMatch_value[OF this] assms(2)
  have "match input (NON_RESERVED_WORD_REGEX (constructor k)) = Some []" by auto
  then show ?thesis by (rule word_empty_match)
qed

lemma getNextToken_cases:
  obtains
    (whitespace) tok where "getWhitespaceToken t input = Some tok"
      "getNextToken t input prev = Some tok"
  | (comment) tok where "getWhitespaceToken t input = None"
      "getCommentToken t input = Some tok" "getNextToken t input prev = Some tok"
  | (quoted) tok where "getWhitespaceToken t input = None"
      "getQuotedStringToken t input = Some tok" "getNextToken t input prev = Some tok"
  | (variable) tok where "getWhitespaceToken t input = None"
      "getQuotedStringToken t input = None"
      "getVariableToken t input = Some tok" "getNextToken t input prev = Some tok"
  | (number) tok where "getWhitespaceToken t input = None"
      "getQuotedStringToken t input = None"
      "getNumberToken t input = Some tok" "getNextToken t input prev = Some tok"
  | (boundary) tok where "getWhitespaceToken t input = None"
      "getQuotedStringToken t input = None"
      "getBoundaryCharacterToken t input = Some tok" "getNextToken t input prev = Some tok"
  | (reserved) tok where "getWhitespaceToken t input = None"
      "getQuotedStringToken t input = None" "getBoundaryCharacterToken t input = None"
      "getReservedWordToken t input prev = Some tok" "getNextToken t input prev = Some tok"
  | (funct) tok where "getWhitespaceToken t input = None"
      "getQuotedStringToken t input = None" "getBoundaryCharacterToken t input = None"
      "getReservedWordToken t input prev = None"
      "getFunctionWordToken t input = Some tok" "getNextToken t input prev = Some tok"
  | (word) "getWhitespaceToken t input = None"
      "getQuotedStringToken t input = None" "getBoundaryCharacterToken t input = None"
      "getReservedWordToken t input prev = None" "getFunctionWordToken t input = None"
      "getNextToken t input prev = getNonReservedWordToken t input"
proof (cases "getWhitespaceToken t input")
  case (Some tok)
  then show ?thesis using whitespace by (simp add: getNextToken_def)
next
  case W: None
  show ?thesis
  proof (cases "getCommentToken t input")
    case (Some tok)
    then show ?thesis using comment W by (simp add: getNextToken_def)
  next
    case C: None
    show ?thesis
    proof (cases "getQuotedStringToken t input")
      case (Some tok)
      then show ?thesis using quoted W C by (simp add: getNextToken_def)
    next
      case Q: None
      show ?thesis
      proof (cases "getVariableToken t input")
        case (Some tok)
        then show ?thesis using variable W C Q by (simp add: getNextToken_def)
      next
        case V: None
        show ?thesis
        proof (cases "getNumberToken t input")
          case (Some tok)
          then show ?thesis using number W C Q V by (simp add: getNextToken_def)
        next
          case N: None
          show ?thesis
          proof (cases "getBoundaryCharacterToken t input")
            case (Some tok)
            then show ?thesis using boundary W C Q V N by (simp add: getNextToken_def)
          next
            case B: None
            show ?thesis
            proof (cases "getReservedWordToken t input prev")
              case (Some tok)
              then show ?thesis using reserved W C Q V N B by (simp add: getNextToken_def)
            next
              case R: None
              show ?thesis
              proof (cases "getFunctionWordToken t input")
                case (Some tok)
                then show ?thesis using funct W C Q V N B R by (simp add: getNextToken_def)
              next
                case F: None
                then show ?thesis using word W C Q V N B R by (simp add: getNextToken_def)
              qed
            qed
          qed
        qed
      qed
    qed
  qed
qed

lemma getNextToken_progress:
  assumes "plain_cfg k" and "input \<noteq> []"
  shows "\<exists>tok. getNextToken (constructor k) input prev = Some tok \<and> value tok \<noteq> Some []"
proof -
  from assms(2) obtain c cs where i: "input = c # cs" by (cases input) auto
  show ?thesis
  proof (cases "constructor k" input prev rule: getNextToken_cases)
    case (whitespace tok)
    then show ?thesis using whitespace_nonempty by blast
  next
    case (comment tok)
    then show ?thesis using comment_nonempty by blast
  next
    case (quoted tok)
    then show ?thesis using quoted_nonempty by blast
  next
    case (variable tok)
    then show ?thesis using variable_nonempty by blast
  next
    case (number tok)
    then show ?thesis using number_nonempty by blast
  next
    case (boundary tok)
    then show ?thesis using boundary_nonempty by blast
  next
    case (reserved tok)
    have "\<not> space c" using reserved(1) whitespace_matches[of c k cs] i by auto
    moreover have "\<not> boundary_char c" using reserved(3) boundary_matches[of c k cs] i by auto
    ultimately have "value tok \<noteq> Some []"
      using reserved_nonempty[OF reserved(4)] i by auto
    with reserved show ?thesis by blast
  next
    case (funct tok)
    have "\<not> boundary_char c" using funct(3) boundary_matches[of c k cs] i by auto
    then have "value tok \<noteq> Some []"
      using function_nonempty[OF funct(5)] i by auto
    with funct show ?thesis by blast
  next
    case word
    have ns: "\<not> space c" using word(1) whitespace_matches[of c k cs] i by auto
    have nb: "\<not> boundary_char c" using word(3) boundary_matches[of c k cs] i by auto
    have nq: "c \<notin> {dquote, squote, backtick}"
      using word(2) quoted_matches[of c "constructor k" cs] i by auto
    from word_matches[of k input] obtain tok where
      tok: "getNonReservedWordToken (constructor k) input = Some tok"
      by auto
    have "value tok \<noteq> Some []" using word_nonempty[OF tok] ns nb nq i by auto
    with tok word show ?thesis by simp
  qed
qed

section \<open>The scan loop\<close>

lemma tokenize_loop_Nil: "tokenize_loop t [] prev toks = Some (Inr toks)"
  by (subst tokenize_loop.simps) simp

lemma tokenize_loop_step:
  "getNextToken t input prev = Some tok \<Longrightarrow> value tok = Some v \<Longrightarrow> input \<noteq> [] \<Longrightarrow>
   tokenize_loop t input prev toks
     = tokenize_loop t (drop (length v) input) (Some tok) (toks @ [tok])"
  by (subst tokenize_loop.simps) simp

lemma tokenize_loop_undefined:
  "getNextToken t input prev = Some tok \<Longrightarrow> value tok = None \<Longrightarrow> input \<noteq> [] \<Longrightarrow>
   tokenize_loop t input prev toks = Some (Inl TypeError)"
  by (subst tokenize_loop.simps) simp

lemma tokenize_loop_terminates:
  assumes pc: "plain_cfg k"
  shows "\<exists>r. tokenize_loop (constructor k) input prev toks = Some r"
proof (induction "length input" arbitrary: input prev toks rule: less_induct)
  case less
  show ?case
  proof (cases "input = []")
    case True
    then show ?thesis by (simp add: tokenize_loop_Nil)
  next
    case False
    from getNextToken_progress[OF pc False] obtain tok where
      tok: "getNextToken (constructor k) input prev = Some tok" and ne: "value tok \<noteq> Some []"
      by blast
    show ?thesis
    proof (cases "value tok")
      case None
      from tokenize_loop_undefined[OF tok None False] show ?thesis by blast
    next
      case (Some v)
      with ne have "1 \<le> length v" by (cases v) auto
      moreover from False have "1 \<le> length input" by (cases input) auto
      ultimately have "length input - length v < length input" by arith
      then have "length (drop (length v) input) < length input" by simp
      from less[OF this] obtain r where
        "tokenize_loop (constructor k) (drop (length v) input) (Some tok) (toks @ [tok]) = Some r"
        by blast
      with tokenize_loop_step[OF tok Some False] show ?thesis by simp
    qed
  qed
qed

lemma tokenize_steps_enough:
  assumes pc: "plain_cfg k"
  shows "length input \<le> n \<Longrightarrow>
   tokenize_steps n (constructor k) input prev toks = tokenize_loop (constructor k) input prev toks"
proof (induction n arbitrary: input prev toks)
  case 0
  then show ?case by (simp add: tokenize_loop_Nil)
next
  case (Suc n)
  show ?case
  proof (cases "input = []")
    case True
    then show ?thesis by (simp add: tokenize_loop_Nil)
  next
    case False
    from getNextToken_progress[OF pc False] obtain tok where
      tok: "getNextToken (constructor k) input prev = Some tok" and ne: "value tok \<noteq> Some []"
      by blast
    show ?thesis
    proof (cases "value tok")
      case None
      from tokenize_loop_undefined[OF tok None False] tok None False show ?thesis by simp
    next
      case (Some v)
      with ne have "1 \<le> length v" by (cases v) auto
      with Suc.prems have "length input - length v \<le> n" by arith
      then have "length (drop (length v) input) \<le> n" by simp
      from Suc.IH[OF this] tokenize_loop_step[OF tok Some False] tok Some False
      show ?thesis by simp
    qed
  qed
qed

lemma tokenize_terminates:
  assumes pc: "plain_cfg k"
  shows "\<exists>r. tokenize (constructor k) s = Some r
      \<and> tokenize_steps (length s) (constructor k) s None [] = Some r"
  using tokenize_loop_terminates[OF pc, of s None "[]"]
    tokenize_steps_enough[OF pc, of s "length s" None "[]"]
  by (auto simp: tokenize_def)

section \<open>Keyword rules\<close>

lemma lit_Nil: "lit i [] = Eps"
  by (simp add: lit_def)

lemma lit_Cons: "lit i (c # w) = Seq (chr i c) (lit i w)"
  by (simp add: lit_def)

lemma lit_matches_length: "lit_matches i w s \<Longrightarrow> length w \<le> length s"
  by (induction i w s rule: lit_matches.induct) auto

lemma backtrack_lit:
  "backtrack (lit i w) s = (if lit_matches i w s then [drop (length w) s] else [])"
proof (induction i w s rule: lit_matches.induct)
  case (1 i s)
  show ?case by (simp add: lit_Nil)
next
  case (2 i c w)
  show ?case by (simp add: lit_Cons chr_def)
next
  case (3 i c w x s)
  show ?case
  proof (cases "if i then Canonicalize x = Canonicalize c else x = c")
    case True
    then have "backtrack (lit i (c # w)) (x # s) = backtrack (lit i w) s"
      by (simp add: lit_Cons chr_def)
    with 3 True show ?thesis by simp
  next
    case False
    then have "backtrack (lit i (c # w)) (x # s) = []"
      by (simp add: lit_Cons chr_def)
    with False show ?thesis by simp
  qed
qed

lemma backtrack_join:
  "backtrack (join i ws) s = concat (map (\<lambda>w. backtrack (lit i w) s) (alternatives ws))"
proof (induction ws)
  case Nil
  show ?case by (simp add: join_def alternatives_def lit_Nil)
next
  case (Cons w ws)
  show ?case
  proof (cases ws)
    case Nil
    then show ?thesis by (simp add: join_def alternatives_def)
  next
    case (Cons w' ws')
    with Cons.IH show ?thesis by (simp add: join_def alternatives_def)
  qed
qed

lemma in_backtrack_join:
  "s' \<in> set (backtrack (join i ws) s) \<longleftrightarrow>
     (\<exists>w \<in> set (alternatives ws). lit_matches i w s \<and> s' = drop (length w) s)"
proof -
  have "set (backtrack (join i ws) s) = (\<Union>w \<in> set (alternatives ws). set (backtrack (lit i w) s))"
    by (simp add: backtrack_join)
  also have "\<dots> = (\<Union>w \<in> set (alternatives ws). if lit_matches i w s then {drop (length w) s} else {})"
    by (simp add: backtrack_lit if_distrib cong: if_cong)
  finally show ?thesis by (auto split: if_splits)
qed

lemma lit_matches_ci_eq_aux: "lit_matches i w s \<Longrightarrow> i \<Longrightarrow> ci_eq w (take (length w) s)"
  by (induction i w s rule: lit_matches.induct) (simp_all add: ci_eq_def)

lemma lit_matches_ci_eq: "lit_matches True w s \<Longrightarrow> ci_eq w (take (length w) s)"
  using lit_matches_ci_eq_aux by blast

lemma keyword_match_SomeD:
  assumes "match s \<lparr> group1 = join i ws, follow = F \<rparr> = Some v"
  shows "\<exists>w \<in> set (alternatives ws). lit_matches i w s \<and> backtrack F (drop (length w) s) \<noteq> []
           \<and> v = take (length w) s"
proof -
  from match_SomeD[OF assms] obtain s' where s: "s = v @ s'"
    and m: "s' \<in> set (backtrack (join i ws) s)" and f: "backtrack F s' \<noteq> []"
    by auto
  from m obtain w where w: "w \<in> set (alternatives ws)" and l: "lit_matches i w s"
    and d: "s' = drop (length w) s"
    unfolding in_backtrack_join by blast
  from lit_matches_length[OF l] have "length w \<le> length s" .
  have "length s = length v + length s'" using s by simp
  moreover have "length s' = length s - length w" using d by simp
  ultimately have "length v = length w" using \<open>length w \<le> length s\<close> by arith
  with s have "v = take (length w) s" by simp
  with w l d f show ?thesis by blast
qed

lemma keyword_match_not_None:
  assumes "w \<in> set (alternatives ws)" "lit_matches i w s"
    "backtrack F (drop (length w) s) \<noteq> []"
  shows "match s \<lparr> group1 = join i ws, follow = F \<rparr> \<noteq> None"
proof -
  have "drop (length w) s \<in> set (backtrack (join i ws) s)"
    using assms(1,2) in_backtrack_join[of "drop (length w) s" i ws s] by blast
  with assms(3) show ?thesis by (auto simp: match_eq_None_iff)
qed

lemma ci_eq_caseless_mem:
  assumes "ci_eq w u" "c \<in> set u" "caseless c"
  shows "c \<in> set w"
proof -
  from assms(2) have "Canonicalize c \<in> set (map Canonicalize u)" by simp
  with assms(1) have "Canonicalize c \<in> set (map Canonicalize w)" by (simp add: ci_eq_def)
  then obtain x where x: "x \<in> set w" and "Canonicalize x = Canonicalize c" by auto
  with assms(3) have "x = c" by (simp add: Canonicalize_caseless)
  with x show ?thesis by simp
qed

lemma plain_cfg_reserved:
  "plain_cfg c \<Longrightarrow> w \<in> set (reserved_keywords c) \<Longrightarrow> x \<in> set w \<Longrightarrow> \<not> syntax_character x"
  unfolding plain_cfg_def reserved_keywords_def by auto

lemma plain_not_ci_eq:
  assumes "plain_cfg c" "w \<in> set (reserved_keywords c)" "x \<in> set u" "caseless x"
    "syntax_character x"
  shows "\<not> ci_eq w u"
proof
  assume "ci_eq w u"
  from ci_eq_caseless_mem[OF this assms(3,4)] have "x \<in> set w" .
  from plain_cfg_reserved[OF assms(1,2) this] assms(5) show False by simp
qed

lemma in_candidates:
  "u \<in> set (candidates E s) \<longleftrightarrow> (\<exists>n \<le> length s. E (drop n s) \<and> u = take n s)"
proof -
  have "set (candidates E s) = (\<lambda>n. take n s) ` {n. n \<le> length s \<and> E (drop n s)}"
    unfolding candidates_def by (simp only: set_map set_filter set_upt) (auto simp: less_Suc_eq_le)
  then show ?thesis by blast
qed

lemma keyword_match_candidate:
  assumes E: "\<And>s'. backtrack F s' \<noteq> [] \<longleftrightarrow> E s'"
    and m: "match s \<lparr> group1 = join True ws, follow = F \<rparr> = Some v"
  shows "v \<in> set (candidates E s) \<and> (\<exists>w \<in> set (alternatives ws). ci_eq w v)"
proof -
  from keyword_match_SomeD[OF m] obtain w where w: "w \<in> set (alternatives ws)"
    and l: "lit_matches True w s" and f: "backtrack F (drop (length w) s) \<noteq> []"
    and v: "v = take (length w) s" by blast
  from f E have "E (drop (length w) s)" by blast
  with lit_matches_length[OF l] v have "v \<in> set (candidates E s)"
    unfolding in_candidates by blast
  moreover from lit_matches_ci_eq[OF l] v have "ci_eq w v" by simp
  ultimately show ?thesis using w by blast
qed

lemma keyword_rule_None:
  assumes E: "\<And>s'. backtrack F s' \<noteq> [] \<longleftrightarrow> E s'"
    and no: "\<And>w u. w \<in> set ws \<Longrightarrow> u \<in> set (candidates E s) \<Longrightarrow> \<not> ci_eq w u"
    and s: "\<not> E s"
  shows "match s \<lparr> group1 = join True ws, follow = F \<rparr> = None"
proof (rule ccontr)
  assume "match s \<lparr> group1 = join True ws, follow = F \<rparr> \<noteq> None"
  then obtain v where m: "match s \<lparr> group1 = join True ws, follow = F \<rparr> = Some v" by blast
  from keyword_match_candidate[OF E m] obtain w where v: "v \<in> set (candidates E s)"
    and w: "w \<in> set (alternatives ws)" and c: "ci_eq w v" by blast
  show False
  proof (cases "w \<in> set ws")
    case True
    from no[OF True v] c show False by simp
  next
    case False
    with w have "w = []" by (auto simp: alternatives_def split: if_splits)
    with c have "v = []" by (simp add: ci_eq_def)
    with v s show False unfolding in_candidates by auto
  qed
qed

lemma follow_keyword_word_end:
  "backtrack (alts [Eos, Atom space, boundaries i]) s \<noteq> [] \<longleftrightarrow> word_end s"
  unfolding word_end_def by (rule follow_keyword)

lemma follow_paren_open:
  "backtrack (chr True (CHR ''('')) s \<noteq> [] \<longleftrightarrow> open_paren s"
  unfolding open_paren_def by (rule follow_paren)

lemma reserved_None:
  assumes no: "\<And>w u. w \<in> set (reserved_keywords c) \<Longrightarrow> u \<in> set (candidates word_end s)
                 \<Longrightarrow> \<not> ci_eq w u"
    and s: "\<not> word_end s"
  shows "getReservedWordToken (constructor c) s prev = None"
proof -
  have 1: "match s (RESERVED_TOPLEVEL_REGEX (constructor c)) = None"
    unfolding constructor_simps
    by (rule keyword_rule_None[OF follow_keyword_word_end _ s])
       (rule no, simp_all add: reserved_keywords_def)
  have 2: "match s (RESERVED_NEWLINE_REGEX (constructor c)) = None"
    unfolding constructor_simps
    by (rule keyword_rule_None[OF follow_keyword_word_end _ s])
       (rule no, simp_all add: reserved_keywords_def)
  have 3: "match s (RESERVED_REGEX (constructor c)) = None"
    unfolding constructor_simps
    by (rule keyword_rule_None[OF follow_keyword_word_end _ s])
       (rule no, simp_all add: reserved_keywords_def)
  show ?thesis
    by (simp add: getReservedWordToken_def getTokenOnFirstMatch_def 1 2 3)
qed

lemma reserved_after_dot:
  "getReservedWordToken t input (Some \<lparr> type = ty, value = Some ''.'' \<rparr>) = None"
  by (simp add: getReservedWordToken_def)

lemma function_None:
  assumes "candidates open_paren s = []"
  shows "getFunctionWordToken (constructor c) s = None"
proof -
  have "match s (FUNCTION_REGEX (constructor c)) = None"
  proof (rule ccontr)
    assume "match s (FUNCTION_REGEX (constructor c)) \<noteq> None"
    then obtain v where "match s (FUNCTION_REGEX (constructor c)) = Some v" by blast
    then have "v \<in> set (candidates open_paren s)"
      unfolding constructor_simps
      using keyword_match_candidate[OF follow_paren_open] by blast
    with assms show False by simp
  qed
  then show ?thesis by (simp add: getFunctionWordToken_def getTokenOnFirstMatch_def)
qed

lemma keyword_rule_Some:
  assumes E: "\<And>s'. backtrack F s' \<noteq> [] \<longleftrightarrow> E s'"
    and w: "w \<in> set ws" "lit_matches True w s" "E (drop (length w) s)"
    and one: "candidates E s = [u]"
  shows "match s \<lparr> group1 = join True ws, follow = F \<rparr> = Some u"
proof -
  from w(1) have "w \<in> set (alternatives ws)" by (auto simp: alternatives_def)
  moreover from w(3) E have "backtrack F (drop (length w) s) \<noteq> []" by blast
  ultimately have "match s \<lparr> group1 = join True ws, follow = F \<rparr> \<noteq> None"
    using keyword_match_not_None[of w ws True s F] w(2) by blast
  then obtain v where m: "match s \<lparr> group1 = join True ws, follow = F \<rparr> = Some v" by blast
  from keyword_match_candidate[OF E m] one have "v = u" by simp
  with m show ?thesis by simp
qed

lemma getNextToken_late:
  assumes "no_early_match t input"
  shows "getNextToken t input prev =
     (case getReservedWordToken t input prev of
        Some tok \<Rightarrow> Some tok
      | None \<Rightarrow> (case getFunctionWordToken t input of
                   Some tok \<Rightarrow> Some tok
                 | None \<Rightarrow> getNonReservedWordToken t input))"
  using assms by (simp add: no_early_match_def getNextToken_def)

lemma caseless_dot: "caseless (CHR ''.'')" and caseless_paren: "caseless (CHR ''('')"
  by (simp_all add: caseless_def)

lemma syntax_dot: "syntax_character (CHR ''.'')" and syntax_paren: "syntax_character (CHR ''('')"
  by (simp_all add: syntax_character_def)

lemma reserved_SomeD:
  assumes "getReservedWordToken (constructor c) s prev = Some tok"
  shows "\<exists>v. value tok = Some v \<and> v \<in> set (candidates word_end s)
             \<and> (v = [] \<or> (\<exists>w \<in> set (reserved_keywords c). ci_eq w v))"
proof -
  have k: "\<exists>v. value tok = Some v \<and> v \<in> set (candidates word_end s)
             \<and> (v = [] \<or> (\<exists>w \<in> set ws. ci_eq w v))"
    if "getTokenOnFirstMatch s ty \<lparr> group1 = join True ws,
          follow = alts [Eos, Atom space, boundaries True] \<rparr> = Some tok" for ty ws
  proof -
    from getTokenOnFirstMatch_value[OF that] obtain v where v: "value tok = Some v"
      and m: "match s \<lparr> group1 = join True ws,
                follow = alts [Eos, Atom space, boundaries True] \<rparr> = Some v" by blast
    from keyword_match_candidate[OF follow_keyword_word_end m] obtain w where
      c: "v \<in> set (candidates word_end s)" and w: "w \<in> set (alternatives ws)" and e: "ci_eq w v"
      by blast
    have "v = [] \<or> (\<exists>w \<in> set ws. ci_eq w v)"
    proof (cases "w \<in> set ws")
      case True
      with e show ?thesis by blast
    next
      case False
      with w have "w = []" by (auto simp: alternatives_def split: if_splits)
      with e show ?thesis by (simp add: ci_eq_def)
    qed
    with v c show ?thesis by blast
  qed
  from assms consider
      "getTokenOnFirstMatch s RESERVED_TOPLEVEL (RESERVED_TOPLEVEL_REGEX (constructor c)) = Some tok"
    | "getTokenOnFirstMatch s RESERVED_NEWLINE (RESERVED_NEWLINE_REGEX (constructor c)) = Some tok"
    | "getTokenOnFirstMatch s RESERVED (RESERVED_REGEX (constructor c)) = Some tok"
    by (auto simp: getReservedWordToken_def split: if_splits option.splits)
  then show ?thesis
  proof cases
    case 1
    from k[OF 1[unfolded constructor_simps]] show ?thesis
      by (auto simp: reserved_keywords_def)
  next
    case 2
    from k[OF 2[unfolded constructor_simps]] show ?thesis
      by (auto simp: reserved_keywords_def)
  next
    case 3
    from k[OF 3[unfolded constructor_simps]] show ?thesis
      by (auto simp: reserved_keywords_def)
  qed
qed

lemma toplevel_Some:
  assumes w: "w \<in> set (reservedToplevelWords c)" "lit_matches True w s"
      "word_end (drop (length w) s)"
    and one: "candidates word_end s = [u]"
    and prev: "prev = None \<or> (\<exists>p. prev = Some p \<and> value p \<noteq> Some ''.'')"
  shows "getReservedWordToken (constructor c) s prev = Some \<lparr> type = RESERVED_TOPLEVEL, value = Some u \<rparr>"
proof -
  have "match s (RESERVED_TOPLEVEL_REGEX (constructor c)) = Some u"
    unfolding constructor_simps
    by (rule keyword_rule_Some[OF follow_keyword_word_end w one])
  moreover from prev have
    "\<not> (case prev of None \<Rightarrow> False
         | Some p \<Rightarrow> (case value p of None \<Rightarrow> False | Some v \<Rightarrow> v \<noteq> [] \<and> v = ''.''))"
    by (auto split: option.splits)
  ultimately show ?thesis
    by (simp add: getReservedWordToken_def getTokenOnFirstMatch_def)
qed

lemma function_Some:
  assumes w: "w \<in> set (functionWords c)" "lit_matches True w s"
      "open_paren (drop (length w) s)"
    and one: "candidates open_paren s = [u]"
  shows "getFunctionWordToken (constructor c) s = Some \<lparr> type = RESERVED, value = Some u \<rparr>"
proof -
  have "match s (FUNCTION_REGEX (constructor c)) = Some u"
    unfolding constructor_simps
    by (rule keyword_rule_Some[OF follow_paren_open w one])
  then show ?thesis
    by (simp add: getFunctionWordToken_def getTokenOnFirstMatch_def)
qed

section \<open>Kinds of tokens\<close>











section \<open>Inputs without a backslash\<close>

lemma nonempty_iff: "xs \<noteq> [] \<longleftrightarrow> (\<exists>x. x \<in> set xs)"
  by (cases xs) auto

lemma in_backtrack_Seq:
  "s' \<in> set (backtrack (Seq a b) s) \<longleftrightarrow> (\<exists>m \<in> set (backtrack a s). s' \<in> set (backtrack b m))"
  by simp

lemma Seq_nonempty:
  assumes "m \<in> set (backtrack a s)" "backtrack b m \<noteq> []"
  shows "backtrack (Seq a b) s \<noteq> []"
proof -
  from assms(2) obtain s' where "s' \<in> set (backtrack b m)" unfolding nonempty_iff by blast
  with assms(1) have "s' \<in> set (backtrack (Seq a b) s)" unfolding in_backtrack_Seq by blast
  then show ?thesis unfolding nonempty_iff by blast
qed

lemma star_atom_dropWhile: "dropWhile P s \<in> set (backtrack (Star (Atom P)) s)"
proof (induction s)
  case Nil
  show ?case by (subst backtrack.simps(6)) simp
next
  case (Cons c cs)
  show ?case
  proof (cases "P c")
    case True
    then have "cs \<in> set (backtrack (Atom P) (c # cs))" by simp
    moreover have "length cs < length (c # cs)" by simp
    ultimately have "dropWhile P cs \<in> set (backtrack (Star (Atom P)) (c # cs))"
      using Cons.IH in_backtrack_Star[of "dropWhile P cs" "Atom P" "c # cs"] by blast
    with True show ?thesis by simp
  next
    case False
    have "c # cs \<in> set (backtrack (Star (Atom P)) (c # cs))"
      using in_backtrack_Star[of "c # cs" "Atom P" "c # cs"] by blast
    with False show ?thesis by simp
  qed
qed

lemma self_in_Star: "s \<in> set (backtrack (Star r) s)"
  using in_backtrack_Star[of s r s] by blast

lemma dropWhile_head: "dropWhile P s = x # xs \<Longrightarrow> \<not> P x \<and> x \<in> set s"
proof -
  assume a: "dropWhile P s = x # xs"
  then have "\<not> P x" using hd_dropWhile[of P s] by simp
  moreover have "x \<in> set (dropWhile P s)" using a by simp
  then have "x \<in> set s" using set_dropWhileD by fastforce
  ultimately show ?thesis by blast
qed

lemma closing_matches:
  assumes "\<And>x xs. m = x # xs \<Longrightarrow> x = q"
  shows "backtrack (Alt Eos (chr False q)) m \<noteq> []" "backtrack (Alt (chr False q) Eos) m \<noteq> []"
  using assms by (cases m; simp add: chr_def)+

text \<open>One segment that ends at the closing character or at the end of the input.\<close>

lemma segment_matches:
  assumes "\<And>c. \<not> P c \<Longrightarrow> c \<in> set rest \<Longrightarrow> c = q"
  shows "backtrack (Seq (Star (Atom P)) (Alt Eos (chr False q))) rest \<noteq> []"
proof (rule Seq_nonempty[OF star_atom_dropWhile])
  show "backtrack (Alt Eos (chr False q)) (dropWhile P rest) \<noteq> []"
    by (rule closing_matches) (use assms dropWhile_head[of P rest] in blast)
qed

lemma quoted_matches_plain:
  assumes "backslash \<notin> set rest"
  shows "backtrack (quoted q) (q # rest) \<noteq> []"
proof -
  let ?P = "\<lambda>c. c \<noteq> q \<and> c \<noteq> backslash"
  let ?B = "Seq (chr False backslash) (Seq (Atom dot) (Star (Atom ?P)))"
  let ?m = "dropWhile ?P rest"
  have c: "backtrack (Alt (chr False q) Eos) ?m \<noteq> []"
    by (rule closing_matches) (use assms dropWhile_head[of ?P rest] in blast)
  have "backtrack (Seq (Star ?B) (Alt (chr False q) Eos)) ?m \<noteq> []"
    by (rule Seq_nonempty[OF self_in_Star c])
  then have "backtrack (Seq (Star (Atom ?P)) (Seq (Star ?B) (Alt (chr False q) Eos))) rest \<noteq> []"
    by (rule Seq_nonempty[OF star_atom_dropWhile])
  moreover have "rest \<in> set (backtrack (chr False q) (q # rest))" by (simp add: chr_def)
  ultimately show ?thesis unfolding quoted_def by (rule Seq_nonempty[rotated])
qed

lemma plus_nonempty: "backtrack r s \<noteq> [] \<Longrightarrow> backtrack (plus r) s \<noteq> []"
proof -
  assume "backtrack r s \<noteq> []"
  then obtain m where m: "m \<in> set (backtrack r s)" unfolding nonempty_iff by blast
  have "backtrack (Star r) m \<noteq> []" by (rule backtrack_Star_nonempty)
  with m show ?thesis unfolding plus_def by (rule Seq_nonempty)
qed

lemma Alt_nonempty:
  "backtrack a s \<noteq> [] \<Longrightarrow> backtrack (Alt a b) s \<noteq> []"
  "backtrack b s \<noteq> [] \<Longrightarrow> backtrack (Alt a b) s \<noteq> []"
  by simp_all

lemma string_rule_matches:
  assumes "backslash \<notin> set rest"
    and "q = dquote \<or> q = squote \<or> q = backtick \<or> q = CHR ''[''"
  shows "getQuotedString (constructor k) (q # rest) \<noteq> None"
proof -
  let ?S1 = "Seq (chr False backtick)
                   (Seq (Star (Atom (\<lambda>c. c \<noteq> backtick))) (Alt Eos (chr False backtick)))"
  let ?X = "Seq (chr False (CHR ''['')) (Seq (Star (Atom (\<lambda>c. c \<noteq> CHR '']'')))
                                                     (Alt Eos (chr False (CHR '']''))))"
  let ?Y = "Star (Seq (chr False (CHR '']''))
                                 (Seq (Star (Atom (\<lambda>c. c \<noteq> CHR '']'')))
                                      (Alt Eos (chr False (CHR '']'')))))"
  let ?G = "Alt (plus ?S1) (Alt (Seq ?X ?Y) (Alt (plus (quoted dquote)) (plus (quoted squote))))"
  have g: "group1 (STRING_REGEX (constructor k)) = ?G"
    and f: "follow (STRING_REGEX (constructor k)) = Eps"
    by (simp_all add: constructor_def)
  have hd: "rest \<in> set (backtrack (chr False q) (q # rest))" by (simp add: chr_def)
  have "backtrack ?G (q # rest) \<noteq> []"
  proof -
    consider "q = backtick" | "q = CHR ''[''" | "q = dquote" | "q = squote"
      using assms(2) by blast
    then show ?thesis
    proof cases
      case 1
      have "backtrack (Seq (Star (Atom (\<lambda>c. c \<noteq> backtick))) (Alt Eos (chr False backtick))) rest \<noteq> []"
        by (rule segment_matches) simp
      with hd have "backtrack ?S1 (q # rest) \<noteq> []"
        unfolding 1 by (rule Seq_nonempty)
      then have "backtrack (plus ?S1) (q # rest) \<noteq> []" by (rule plus_nonempty)
      then show ?thesis by (rule Alt_nonempty(1))
    next
      case 2
      have "backtrack (Seq (Star (Atom (\<lambda>c. c \<noteq> CHR '']''))) (Alt Eos (chr False (CHR '']'')))) rest \<noteq> []"
        by (rule segment_matches) simp
      with hd have "backtrack ?X (q # rest) \<noteq> []"
        unfolding 2 by (rule Seq_nonempty)
      then obtain m where m: "m \<in> set (backtrack ?X (q # rest))"
        unfolding nonempty_iff by blast
      have "backtrack ?Y m \<noteq> []" by (rule backtrack_Star_nonempty)
      with m have "backtrack (Seq ?X ?Y) (q # rest) \<noteq> []" by (rule Seq_nonempty)
      then show ?thesis by (intro Alt_nonempty(2) Alt_nonempty(1))
    next
      case 3
      have "backtrack (plus (quoted dquote)) (q # rest) \<noteq> []"
        unfolding 3 by (rule plus_nonempty[OF quoted_matches_plain[OF assms(1)]])
      then show ?thesis by (intro Alt_nonempty(2) Alt_nonempty(1))
    next
      case 4
      have "backtrack (plus (quoted squote)) (q # rest) \<noteq> []"
        unfolding 4 by (rule plus_nonempty[OF quoted_matches_plain[OF assms(1)]])
      then show ?thesis by (intro Alt_nonempty(2))
    qed
  qed
  then obtain s' where "s' \<in> set (backtrack ?G (q # rest))"
    unfolding nonempty_iff by blast
  moreover have "backtrack Eps s' \<noteq> []" by simp
  ultimately have "match (q # rest) (STRING_REGEX (constructor k)) \<noteq> None"
    unfolding match_eq_None_iff g f by blast
  then show ?thesis by (simp add: getQuotedString_def)
qed

text \<open>
  On an input without a backslash \<^verbatim>\<open>STRING_REGEX\<close> matches whenever the quoted-string
  reader is called, every token has a text that is a slice of the input, and the
  texts concatenate to the input.
\<close>

lemma first_match_slice:
  assumes "getTokenOnFirstMatch input ty re = Some tok"
  shows "\<exists>v s'. value tok = Some v \<and> input = v @ s'"
proof -
  from getTokenOnFirstMatch_value[OF assms] obtain v where v: "value tok = Some v"
    and m: "match input re = Some v" by blast
  from match_SomeD[OF m] v show ?thesis by blast
qed

lemma getQuotedString_slice:
  "getQuotedString t input = Some v \<Longrightarrow> \<exists>s'. input = v @ s'"
  unfolding getQuotedString_def using match_SomeD by blast

lemma quoted_slice:
  assumes "getQuotedStringToken (constructor k) input = Some tok" "backslash \<notin> set input"
  shows "\<exists>v s'. value tok = Some v \<and> input = v @ s'"
proof -
  from assms(1) obtain q rest where i: "input = q # rest"
    and q: "q = dquote \<or> q = squote \<or> q = backtick \<or> q = CHR ''[''"
    and v: "value tok = getQuotedString (constructor k) input"
    by (cases input) (auto simp: getQuotedStringToken_def split: if_splits)
  from assms(2) i have "backslash \<notin> set rest" by simp
  from string_rule_matches[OF this q, of k] i obtain w where
    w: "getQuotedString (constructor k) input = Some w" by auto
  from getQuotedString_slice[OF w] v w show ?thesis by simp
qed

lemma variable_slice:
  assumes a: "getVariableToken (constructor k) input = Some tok" and b: "backslash \<notin> set input"
  shows "\<exists>v s'. value tok = Some v \<and> input = v @ s'"
proof -
  from a obtain c0 c1 rest where i: "input = c0 # c1 # rest"
    by (cases input; cases "tl input") (auto simp: getVariableToken_def)
  show ?thesis
  proof (cases "c1 = dquote \<or> c1 = squote \<or> c1 = backtick")
    case True
    from b i have "backslash \<notin> set rest" by simp
    from string_rule_matches[OF this, of c1 k] True obtain w where
      w: "getQuotedString (constructor k) (c1 # rest) = Some w" by auto
    from getQuotedString_slice[OF w] obtain s' where s': "c1 # rest = w @ s'" by blast
    from a i True w have "value tok = Some (c0 # w)"
      by (auto simp: getVariableToken_def concat_undefined_def split: if_splits)
    moreover from i s' have "input = (c0 # w) @ s'" by simp
    ultimately show ?thesis by blast
  next
    case False
    with a i have
      "getTokenOnFirstMatch input VARIABLE
         \<lparr> group1 = Seq (chr False c0) (plus (Atom varchar)), follow = Eps \<rparr> = Some tok"
      by (auto simp: getVariableToken_def split: if_splits)
    then show ?thesis by (rule first_match_slice)
  qed
qed

lemma reserved_slice:
  assumes "getReservedWordToken t input prev = Some tok"
  shows "\<exists>v s'. value tok = Some v \<and> input = v @ s'"
proof -
  from assms consider
      "getTokenOnFirstMatch input RESERVED_TOPLEVEL (RESERVED_TOPLEVEL_REGEX t) = Some tok"
    | "getTokenOnFirstMatch input RESERVED_NEWLINE (RESERVED_NEWLINE_REGEX t) = Some tok"
    | "getTokenOnFirstMatch input RESERVED (RESERVED_REGEX t) = Some tok"
    by (auto simp: getReservedWordToken_def split: if_splits option.splits)
  then show ?thesis by cases (rule first_match_slice, assumption)+
qed

lemma comment_slice:
  assumes "getCommentToken t input = Some tok"
  shows "\<exists>v s'. value tok = Some v \<and> input = v @ s'"
proof -
  from assms consider
      "getTokenOnFirstMatch input COMMENT (LINE_COMMENT_REGEX t) = Some tok"
    | "getTokenOnFirstMatch input BLOCK_COMMENT (BLOCK_COMMENT_REGEX t) = Some tok"
    by (auto simp: getCommentToken_def getLineCommentToken_def getBlockCommentToken_def
        split: option.splits)
  then show ?thesis by cases (rule first_match_slice, assumption)+
qed

lemma getNextToken_slice:
  assumes n: "getNextToken (constructor k) input prev = Some tok"
    and b: "backslash \<notin> set input"
  shows "\<exists>v s'. value tok = Some v \<and> input = v @ s'"
proof (cases "constructor k" input prev rule: getNextToken_cases)
  case (whitespace tok')
  with n show ?thesis using first_match_slice[of input WHITESPACE _ tok]
    by (simp add: getWhitespaceToken_def)
next
  case (comment tok')
  with n show ?thesis using comment_slice[of "constructor k" input tok] by simp
next
  case (quoted tok')
  with n show ?thesis using quoted_slice[OF _ b, of k tok] by simp
next
  case (variable tok')
  with n show ?thesis using variable_slice[OF _ b, of k tok] by simp
next
  case (number tok')
  with n show ?thesis using first_match_slice[of input NUMBER _ tok]
    by (simp add: getNumberToken_def)
next
  case (boundary tok')
  with n show ?thesis using first_match_slice[of input BOUNDARY _ tok]
    by (simp add: getBoundaryCharacterToken_def)
next
  case (reserved tok')
  with n show ?thesis using reserved_slice[of "constructor k" input prev tok] by simp
next
  case (funct tok')
  with n show ?thesis using first_match_slice[of input RESERVED _ tok]
    by (simp add: getFunctionWordToken_def)
next
  case word
  with n show ?thesis using first_match_slice[of input WORD _ tok]
    by (simp add: getNonReservedWordToken_def)
qed

lemma tokenize_loop_lossless:
  assumes pc: "plain_cfg k" and b0: "backslash \<notin> set input"
  shows "\<exists>out. tokenize_loop (constructor k) input prev toks = Some (Inr out)
           \<and> concat (map token_text out) = concat (map token_text toks) @ input
           \<and> ((\<forall>tok \<in> set toks. token_text tok \<noteq> []) \<longrightarrow> (\<forall>tok \<in> set out. token_text tok \<noteq> []))"
  using b0
proof (induction "length input" arbitrary: input prev toks rule: less_induct)
  case less
  show ?case
  proof (cases "input = []")
    case True
    then show ?thesis by (simp add: tokenize_loop_Nil)
  next
    case False
    from getNextToken_progress[OF pc False] obtain tok where
      tok: "getNextToken (constructor k) input prev = Some tok" and ne: "value tok \<noteq> Some []"
      by blast
    from getNextToken_slice[OF tok less.prems] obtain v s' where
      v: "value tok = Some v" and s': "input = v @ s'" by blast
    from v ne have vne: "v \<noteq> []" by simp
    from s' have d: "drop (length v) input = s'" by simp
    from vne s' have l: "length s' < length input" by (cases v) auto
    from less.prems s' have b: "backslash \<notin> set s'" by auto
    from less.hyps[OF l b, of "Some tok" "toks @ [tok]"] obtain out where
      o: "tokenize_loop (constructor k) s' (Some tok) (toks @ [tok]) = Some (Inr out)"
      and c: "concat (map token_text out) = concat (map token_text (toks @ [tok])) @ s'"
      and n: "(\<forall>x \<in> set (toks @ [tok]). token_text x \<noteq> []) \<longrightarrow> (\<forall>x \<in> set out. token_text x \<noteq> [])"
      by blast
    have t: "token_text tok = v" using v by (simp add: token_text_def)
    from tokenize_loop_step[OF tok v False, of toks] d o
    have "tokenize_loop (constructor k) input prev toks = Some (Inr out)" by simp
    moreover from c t s' have
      "concat (map token_text out) = concat (map token_text toks) @ input" by simp
    moreover from n t vne have
      "(\<forall>x \<in> set toks. token_text x \<noteq> []) \<longrightarrow> (\<forall>x \<in> set out. token_text x \<noteq> [])" by simp
    ultimately show ?thesis by blast
  qed
qed

lemma tokenize_lossless:
  assumes "plain_cfg k" and "backslash \<notin> set s"
  shows "\<exists>toks. tokenize (constructor k) s = Some (Inr toks)
           \<and> concat (map token_text toks) = s \<and> (\<forall>tok \<in> set toks. token_text tok \<noteq> [])"
  using tokenize_loop_lossless[OF assms, of None "[]"] by (simp add: tokenize_def)

section \<open>Adjacent quoted segments\<close>

lemma first_path_Seq:
  "first_path a s m \<Longrightarrow> first_path b m x \<Longrightarrow> first_path (Seq a b) s x"
  unfolding first_path_def by (elim exE) simp

lemma first_path_Alt1: "first_path a s x \<Longrightarrow> first_path (Alt a b) s x"
  unfolding first_path_def by (elim exE) simp

lemma first_path_Alt2: "backtrack a s = [] \<Longrightarrow> first_path b s x \<Longrightarrow> first_path (Alt a b) s x"
  unfolding first_path_def by (elim exE) simp

lemma first_path_chr: "first_path (chr False q) (q # s) s"
  unfolding first_path_def by (simp add: chr_def)

lemma chr_fails: "s = [] \<or> hd s \<noteq> q \<Longrightarrow> backtrack (chr False q) s = []"
  by (cases s) (auto simp: chr_def)

lemma first_path_Star_stop: "backtrack r s = [] \<Longrightarrow> first_path (Star r) s s"
  unfolding first_path_def by (subst backtrack.simps(6)) simp

lemma first_path_Star_iter:
  "first_path r s m \<Longrightarrow> length m < length s \<Longrightarrow> first_path (Star r) m x \<Longrightarrow>
   first_path (Star r) s x"
  unfolding first_path_def by (elim exE, subst backtrack.simps(6)) simp

lemma first_path_Star_atom:
  "\<forall>c \<in> set a. P c \<Longrightarrow> rest = [] \<or> \<not> P (hd rest) \<Longrightarrow>
   first_path (Star (Atom P)) (a @ rest) rest"
proof (induction a)
  case Nil
  then have "backtrack (Atom P) rest = []" by (cases rest) auto
  then show ?case by (simp add: first_path_Star_stop)
next
  case (Cons c a)
  then have "first_path (Atom P) (c # a @ rest) (a @ rest)" by (simp add: first_path_def)
  moreover have "length (a @ rest) < length (c # a @ rest)" by simp
  moreover from Cons have "first_path (Star (Atom P)) (a @ rest) rest" by simp
  ultimately have "first_path (Star (Atom P)) (c # a @ rest) rest" by (rule first_path_Star_iter)
  then show ?case by simp
qed

lemma first_path_match:
  assumes "first_path (group1 re) (v @ rest) rest" "follow re = Eps"
  shows "match (v @ rest) re = Some v"
  using assms unfolding first_path_def match_def by (elim exE) simp


lemma Seq_fails: "backtrack a s = [] \<Longrightarrow> backtrack (Seq a b) s = []"
  by simp

lemma plus_fails: "backtrack r s = [] \<Longrightarrow> backtrack (plus r) s = []"
  by (simp add: plus_def)

lemma segments_Cons: "segments q (a # segs) = q # a @ q # segments q segs"
  by (simp add: segments_def)

lemma first_path_Star_segments:
  assumes seg: "\<And>a tail. a \<in> set segs \<Longrightarrow> first_path r (q # a @ q # tail) tail"
    and stop: "backtrack r rest = []"
  shows "first_path (Star r) (segments q segs @ rest) rest"
  using seg
proof (induction segs)
  case Nil
  from stop show ?case by (simp add: segments_def first_path_Star_stop)
next
  case (Cons a segs)
  have 1: "first_path r (q # a @ q # (segments q segs @ rest)) (segments q segs @ rest)"
    by (rule Cons.prems) simp
  have 2: "length (segments q segs @ rest) < length (q # a @ q # (segments q segs @ rest))"
    by simp
  have 3: "first_path (Star r) (segments q segs @ rest) rest"
    by (rule Cons.IH) (simp add: Cons.prems)
  from first_path_Star_iter[OF 1 2 3] show ?case by (simp add: segments_Cons)
qed

lemma first_path_plus_segments:
  assumes seg: "\<And>a tail. a \<in> set segs \<Longrightarrow> first_path r (q # a @ q # tail) tail"
    and stop: "backtrack r rest = []" and ne: "segs \<noteq> []"
  shows "first_path (plus r) (segments q segs @ rest) rest"
proof -
  from ne obtain a segs' where s: "segs = a # segs'" by (cases segs) auto
  have 1: "first_path r (q # a @ q # (segments q segs' @ rest)) (segments q segs' @ rest)"
    by (rule seg) (simp add: s)
  have 2: "first_path (Star r) (segments q segs' @ rest) rest"
    by (rule first_path_Star_segments[OF _ stop]) (rule seg, simp add: s)
  from first_path_Seq[OF 1 2] show ?thesis by (simp add: plus_def s segments_Cons)
qed

lemma first_path_quoted:
  assumes "q \<notin> set a" "backslash \<notin> set a" "q \<noteq> backslash"
  shows "first_path (quoted q) (q # a @ q # tail) tail"
proof -
  let ?P = "\<lambda>c. c \<noteq> q \<and> c \<noteq> backslash"
  let ?B = "Seq (chr False backslash) (Seq (Atom dot) (Star (Atom ?P)))"
  have 1: "first_path (Star (Atom ?P)) (a @ q # tail) (q # tail)"
    by (rule first_path_Star_atom) (use assms in auto)
  have "backtrack ?B (q # tail) = []"
    by (rule Seq_fails, rule chr_fails) (use assms(3) in simp)
  then have 2: "first_path (Star ?B) (q # tail) (q # tail)" by (rule first_path_Star_stop)
  have 3: "first_path (Alt (chr False q) Eos) (q # tail) tail"
    by (rule first_path_Alt1, rule first_path_chr)
  have "first_path (Seq (chr False q) (Seq (Star (Atom ?P)) (Seq (Star ?B) (Alt (chr False q) Eos))))
          (q # a @ q # tail) tail"
    by (rule first_path_Seq[OF first_path_chr], rule first_path_Seq[OF 1],
        rule first_path_Seq[OF 2 3])
  then show ?thesis by (simp add: quoted_def)
qed

lemma quoted_fails: "rest = [] \<or> hd rest \<noteq> q \<Longrightarrow> backtrack (quoted q) rest = []"
  unfolding quoted_def by (rule Seq_fails, rule chr_fails)

text \<open>One segment of the backtick style.\<close>

lemma first_path_backticked:
  assumes "backtick \<notin> set a"
  shows "first_path (Seq (chr False backtick)
                   (Seq (Star (Atom (\<lambda>c. c \<noteq> backtick))) (Alt Eos (chr False backtick))))
           (backtick # a @ backtick # tail) tail"
proof -
  have 1: "first_path (Star (Atom (\<lambda>c. c \<noteq> backtick))) (a @ backtick # tail) (backtick # tail)"
    by (rule first_path_Star_atom) (use assms in auto)
  have 2: "first_path (Alt Eos (chr False backtick)) (backtick # tail) tail"
    by (rule first_path_Alt2[OF _ first_path_chr]) simp
  show ?thesis
    by (rule first_path_Seq[OF first_path_chr], rule first_path_Seq[OF 1 2])
qed

lemma quote_chars_differ:
  "squote \<noteq> dquote" "squote \<noteq> backtick" "dquote \<noteq> backtick" "squote \<noteq> backslash"
  "dquote \<noteq> backslash" "squote \<noteq> CHR ''[''" "dquote \<noteq> CHR ''[''" "backtick \<noteq> CHR ''[''"
  by (simp_all add: squote_def dquote_def backtick_def backslash_def)

lemma string_rule_glues:
  assumes q: "q = squote \<or> q = dquote \<or> q = backtick"
    and ne: "segs \<noteq> []"
    and free: "\<forall>a \<in> set segs. q \<notin> set a \<and> (q = backtick \<or> backslash \<notin> set a)"
    and rest: "rest = [] \<or> hd rest \<noteq> q"
  shows "getQuotedString (constructor c) (segments q segs @ rest) = Some (segments q segs)"
proof -
  let ?S1 = "Seq (chr False backtick)
                   (Seq (Star (Atom (\<lambda>c. c \<noteq> backtick))) (Alt Eos (chr False backtick)))"
  let ?X = "Seq (chr False (CHR ''['')) (Seq (Star (Atom (\<lambda>c. c \<noteq> CHR '']'')))
                                                     (Alt Eos (chr False (CHR '']''))))"
  let ?Y = "Star (Seq (chr False (CHR '']''))
                                 (Seq (Star (Atom (\<lambda>c. c \<noteq> CHR '']'')))
                                      (Alt Eos (chr False (CHR '']'')))))"
  let ?G = "Alt (plus ?S1) (Alt (Seq ?X ?Y) (Alt (plus (quoted dquote)) (plus (quoted squote))))"
  let ?in = "segments q segs @ rest"
  have g: "group1 (STRING_REGEX (constructor c)) = ?G"
    and f: "follow (STRING_REGEX (constructor c)) = Eps"
    by (simp_all add: constructor_def)
  from ne obtain a segs' where s: "segs = a # segs'" by (cases segs) auto
  then have h: "?in \<noteq> [] \<and> hd ?in = q" by (simp add: segments_Cons)
  have nb: "backtrack ?X ?in = []"
    by (rule Seq_fails, rule chr_fails) (use h q quote_chars_differ in auto)
  have "first_path ?G ?in rest"
  proof -
    consider "q = backtick" | "q = dquote" | "q = squote" using q by blast
    then show ?thesis
    proof cases
      case 1
      have "first_path (plus ?S1) (segments backtick segs @ rest) rest"
      proof (rule first_path_plus_segments[OF _ _ ne])
        fix a tail assume "a \<in> set segs"
        with free 1 have "backtick \<notin> set a" by blast
        then show "first_path ?S1 (backtick # a @ backtick # tail) tail"
          by (rule first_path_backticked)
      next
        show "backtrack ?S1 rest = []"
          by (rule Seq_fails, rule chr_fails) (use rest 1 in simp)
      qed
      then show ?thesis unfolding 1 by (rule first_path_Alt1)
    next
      case 2
      have a1: "backtrack (plus ?S1) ?in = []"
        by (rule plus_fails, rule Seq_fails, rule chr_fails) (use h 2 quote_chars_differ in auto)
      have "first_path (plus (quoted dquote)) (segments dquote segs @ rest) rest"
      proof (rule first_path_plus_segments[OF _ _ ne])
        fix a tail assume "a \<in> set segs"
        with free 2 quote_chars_differ have "dquote \<notin> set a" "backslash \<notin> set a" by auto
        then show "first_path (quoted dquote) (dquote # a @ dquote # tail) tail"
          by (rule first_path_quoted) (rule quote_chars_differ)
      next
        show "backtrack (quoted dquote) rest = []"
          by (rule quoted_fails) (use rest 2 in simp)
      qed
      then have "first_path (plus (quoted dquote)) ?in rest" unfolding 2 .
      then have "first_path (Alt (plus (quoted dquote)) (plus (quoted squote))) ?in rest"
        by (rule first_path_Alt1)
      then have "first_path (Alt (Seq ?X ?Y) (Alt (plus (quoted dquote)) (plus (quoted squote)))) ?in rest"
        by (rule first_path_Alt2[OF Seq_fails[OF nb]])
      then show ?thesis by (rule first_path_Alt2[OF a1])
    next
      case 3
      have a1: "backtrack (plus ?S1) ?in = []"
        by (rule plus_fails, rule Seq_fails, rule chr_fails) (use h 3 quote_chars_differ in auto)
      have a3: "backtrack (plus (quoted dquote)) ?in = []"
        by (rule plus_fails, rule quoted_fails) (use h 3 quote_chars_differ in auto)
      have "first_path (plus (quoted squote)) (segments squote segs @ rest) rest"
      proof (rule first_path_plus_segments[OF _ _ ne])
        fix a tail assume "a \<in> set segs"
        with free 3 quote_chars_differ have "squote \<notin> set a" "backslash \<notin> set a" by auto
        then show "first_path (quoted squote) (squote # a @ squote # tail) tail"
          by (rule first_path_quoted) (rule quote_chars_differ)
      next
        show "backtrack (quoted squote) rest = []"
          by (rule quoted_fails) (use rest 3 in simp)
      qed
      then have "first_path (plus (quoted squote)) ?in rest" unfolding 3 .
      then have "first_path (Alt (plus (quoted dquote)) (plus (quoted squote))) ?in rest"
        by (rule first_path_Alt2[OF a3])
      then have "first_path (Alt (Seq ?X ?Y) (Alt (plus (quoted dquote)) (plus (quoted squote)))) ?in rest"
        by (rule first_path_Alt2[OF Seq_fails[OF nb]])
      then show ?thesis by (rule first_path_Alt2[OF a1])
    qed
  qed
  then have "first_path (group1 (STRING_REGEX (constructor c))) ?in rest" by (simp only: g)
  from first_path_match[OF this f] show ?thesis by (simp add: getQuotedString_def)
qed


lemma match_fails: "backtrack (group1 re) input = [] \<Longrightarrow> match input re = None"
  by (simp add: match_def)

lemma quote_opens:
  assumes q: "q = squote \<or> q = dquote \<or> q = backtick"
  shows "getNextToken (constructor c) (q # cs) prev
           = Some \<lparr> type = (if q = backtick then BACKTICK_QUOTE else QUOTE),
                    value = getQuotedString (constructor c) (q # cs) \<rparr>"
proof -
  from q have ns: "\<not> space q" and nc: "q \<noteq> CHR ''#''" "q \<noteq> CHR ''-''" "q \<noteq> CHR ''/''"
    by (auto simp: space_def squote_def dquote_def backtick_def)
  have "backtrack (plus (Atom space)) (q # cs) = []"
    by (rule plus_fails) (simp add: ns)
  then have w: "getWhitespaceToken (constructor c) (q # cs) = None"
    by (simp add: getWhitespaceToken_def getTokenOnFirstMatch_def constructor_simps match_fails)
  have "backtrack (group1 (LINE_COMMENT_REGEX (constructor c))) (q # cs) = []"
    by (simp add: constructor_def chr_def lit_def nc)
  then have l: "getLineCommentToken (constructor c) (q # cs) = None"
    by (simp add: getLineCommentToken_def getTokenOnFirstMatch_def match_fails)
  have "backtrack (group1 (BLOCK_COMMENT_REGEX (constructor c))) (q # cs) = []"
    by (simp add: constructor_def chr_def lit_def nc)
  then have b: "getBlockCommentToken (constructor c) (q # cs) = None"
    by (simp add: getBlockCommentToken_def getTokenOnFirstMatch_def match_fails)
  have k: "getCommentToken (constructor c) (q # cs) = None"
    by (simp add: getCommentToken_def l b)
  from q quote_chars_differ have
    "getQuotedStringToken (constructor c) (q # cs)
       = Some \<lparr> type = (if q = backtick then BACKTICK_QUOTE else QUOTE),
                value = getQuotedString (constructor c) (q # cs) \<rparr>"
    by (auto simp: getQuotedStringToken_def)
  with w k show ?thesis by (simp add: getNextToken_def)
qed

lemma segments_glue:
  assumes q: "q = squote \<or> q = dquote \<or> q = backtick"
    and ne: "segs \<noteq> []"
    and free: "\<forall>a \<in> set segs. q \<notin> set a \<and> (q = backtick \<or> backslash \<notin> set a)"
    and rest: "rest = [] \<or> hd rest \<noteq> q"
  shows "getNextToken (constructor c) (segments q segs @ rest) prev
           = Some \<lparr> type = (if q = backtick then BACKTICK_QUOTE else QUOTE),
                    value = Some (segments q segs) \<rparr>"
proof -
  from ne obtain a segs' where s: "segs = a # segs'" by (cases segs) auto
  then have h: "segments q segs @ rest = q # (a @ q # segments q segs' @ rest)"
    by (simp add: segments_Cons)
  from quote_opens[OF q, of c "a @ q # segments q segs' @ rest" prev]
       string_rule_glues[OF q ne free rest, of c]
  show ?thesis by (simp only: h[symmetric])
qed

lemma segments_one_token:
  assumes q: "q = squote \<or> q = dquote \<or> q = backtick"
    and ne: "segs \<noteq> []"
    and free: "\<forall>a \<in> set segs. q \<notin> set a \<and> (q = backtick \<or> backslash \<notin> set a)"
  shows "tokenize (constructor c) (segments q segs)
           = Some (Inr [\<lparr> type = (if q = backtick then BACKTICK_QUOTE else QUOTE),
                          value = Some (segments q segs) \<rparr>])"
proof -
  let ?tok = "\<lparr> type = (if q = backtick then BACKTICK_QUOTE else QUOTE),
                 value = Some (segments q segs) \<rparr>"
  from segments_glue[OF q ne free, of "[]" c None]
  have n: "getNextToken (constructor c) (segments q segs) None = Some ?tok" by simp
  from ne have i: "segments q segs \<noteq> []" by (cases segs) (simp_all add: segments_Cons)
  from tokenize_loop_step[OF n _ i, of "segments q segs" "[]"]
  show ?thesis by (simp add: tokenize_def tokenize_loop_Nil)
qed

section \<open>Quoted strings\<close>

text \<open>
  C9 (as amended). For every configuration, \<^verbatim>\<open>tokenize("'a''b'")\<close> is the single token of
  kind \<open>QUOTE\<close> (the spec's \<^verbatim>\<open>QUOTED_STRING\<close>) with the text \<^verbatim>\<open>'a''b'\<close>. In general,
  adjacent segments of the single-quote, double-quote or backtick style glue into one
  token: a run of segments whose contents hold neither the delimiter nor, in the two
  quote styles, a backslash, followed by the end of the input or by a character other
  than the delimiter, is read as one token with the text of the whole run, of kind
  \<open>QUOTE\<close> for the quote styles and \<open>BACKTICK_QUOTE\<close> for backticks; alone in the
  input it is the only token.
\<close>

theorem adjacent_quotes_glue:
  assumes "q = squote \<or> q = dquote \<or> q = backtick"
    and "segs \<noteq> []"
    and "\<forall>a \<in> set segs. q \<notin> set a \<and> (q = backtick \<or> backslash \<notin> set a)"
    and "rest = [] \<or> hd rest \<noteq> q"
  shows "getNextToken (constructor c) (segments q segs @ rest) prev
           = Some \<lparr> type = (if q = backtick then BACKTICK_QUOTE else QUOTE),
                    value = Some (segments q segs) \<rparr>
       \<and> tokenize (constructor c) (segments q segs)
           = Some (Inr [\<lparr> type = (if q = backtick then BACKTICK_QUOTE else QUOTE),
                          value = Some (segments q segs) \<rparr>])
       \<and> tokenize (constructor c) [squote, CHR ''a'', squote, squote, CHR ''b'', squote]
           = Some (Inr [\<lparr> type = QUOTE,
                          value = Some [squote, CHR ''a'', squote, squote, CHR ''b'', squote] \<rparr>])"
proof -
  have "tokenize (constructor c) [squote, CHR ''a'', squote, squote, CHR ''b'', squote]
           = Some (Inr [\<lparr> type = QUOTE,
                          value = Some [squote, CHR ''a'', squote, squote, CHR ''b'', squote] \<rparr>])"
    by code_simp
  with segments_glue[OF assms, of c prev] segments_one_token[OF assms(1-3), of c]
  show ?thesis by (intro conjI)
qed

text \<open>
  The theorem at two single-quoted segments followed by other text: the token ends
  where the second segment ends.
\<close>

theorem adjacent_quotes_glue_witness:
  "segments squote [''a'', ''b''] = [squote, CHR ''a'', squote, squote, CHR ''b'', squote]
   \<and> getNextToken (constructor \<lparr> reservedWords = [''as''],
         reservedToplevelWords = [''select'', ''from''], reservedNewlineWords = [''and''],
         functionWords = [''count''] \<rparr>) (segments squote [''a'', ''b''] @ '' x'') None
       = Some \<lparr> type = QUOTE, value = Some (segments squote [''a'', ''b'']) \<rparr>"
proof -
  have h1: "squote = squote \<or> squote = dquote \<or> squote = backtick" by simp
  have h2: "[''a'', ''b''] \<noteq> []" by simp
  have h3: "\<forall>a \<in> set [''a'', ''b'']. squote \<notin> set a \<and> (squote = backtick \<or> backslash \<notin> set a)"
    by (simp add: squote_def backslash_def)
  have h4: "'' x'' = [] \<or> hd '' x'' \<noteq> squote" by (simp add: squote_def)
  have s: "segments squote [''a'', ''b''] = [squote, CHR ''a'', squote, squote, CHR ''b'', squote]"
    by (simp add: segments_def)
  from adjacent_quotes_glue[OF h1 h2 h3 h4] have
    "getNextToken (constructor \<lparr> reservedWords = [''as''],
         reservedToplevelWords = [''select'', ''from''], reservedNewlineWords = [''and''],
         functionWords = [''count''] \<rparr>) (segments squote [''a'', ''b''] @ '' x'') None
       = Some \<lparr> type = (if squote = backtick then BACKTICK_QUOTE else QUOTE),
                value = Some (segments squote [''a'', ''b'']) \<rparr>"
    by (rule conjunct1)
  then have
    "getNextToken (constructor \<lparr> reservedWords = [''as''],
         reservedToplevelWords = [''select'', ''from''], reservedNewlineWords = [''and''],
         functionWords = [''count''] \<rparr>) (segments squote [''a'', ''b''] @ '' x'') None
       = Some \<lparr> type = QUOTE, value = Some (segments squote [''a'', ''b'']) \<rparr>"
    by (simp only: quote_chars_differ if_False)
  with s show ?thesis by (rule conjI)
qed

text \<open>
  The claim as stated speaks of every quoting style. Two adjacent bracket groups are
  two tokens: after the first group the bracket alternative of \<^verbatim>\<open>STRING_REGEX\<close>
  goes on with a closing bracket only.
\<close>

theorem adjacent_quotes_glue_counterexample:
  "tokenize (constructor \<lparr> reservedWords = [''as''],
         reservedToplevelWords = [''select'', ''from''], reservedNewlineWords = [''and''],
         functionWords = [''count''] \<rparr>) ''[a][b]''
     = Some (Inr [\<lparr> type = BACKTICK_QUOTE, value = Some ''[a]'' \<rparr>,
                  \<lparr> type = BACKTICK_QUOTE, value = Some ''[b]'' \<rparr>])"
  by code_simp

section \<open>Reserved words after a dot\<close>

text \<open>
  C7 (as amended). All three reserved-word matchers are skipped whenever the text of the
  previous token is exactly \<^verbatim>\<open>.\<close>; and for every configuration of plain keywords with
  \<^verbatim>\<open>from\<close> among the toplevel reserved words in which no reserved-word list holds
  \<^verbatim>\<open>t\<close> in either letter case, \<^verbatim>\<open>tokenize("t.from")\<close> is exactly
  \<open>WORD t\<close>, \<open>BOUNDARY .\<close>, \<open>WORD from\<close>.
\<close>

theorem dot_suppression:
  assumes pc: "plain_cfg c"
    and fr: "''from'' \<in> set (reservedToplevelWords c)"
    and nt: "\<forall>w \<in> set (reserved_keywords c). \<not> ci_eq w ''t''"
  shows "(\<forall>input ty. getReservedWordToken (constructor c) input
                        (Some \<lparr> type = ty, value = Some ''.'' \<rparr>) = None)
       \<and> tokenize (constructor c) ''t.from''
           = Some (Inr [\<lparr> type = WORD, value = Some ''t'' \<rparr>,
                        \<lparr> type = BOUNDARY, value = Some ''.'' \<rparr>,
                        \<lparr> type = WORD, value = Some ''from'' \<rparr>])"
proof -
  let ?t = "constructor c"
  let ?t1 = "\<lparr> type = WORD, value = Some ''t'' \<rparr>"
  let ?t2 = "\<lparr> type = BOUNDARY, value = Some ''.'' \<rparr>"
  let ?t3 = "\<lparr> type = WORD, value = Some ''from'' \<rparr>"
  have e1: "no_early_match ?t ''t.from''" by code_simp
  have c1: "candidates word_end ''t.from'' = [''t'', ''t.from'']" by code_simp
  have r1: "getReservedWordToken ?t ''t.from'' None = None"
  proof (rule reserved_None)
    fix w u assume w: "w \<in> set (reserved_keywords c)" and "u \<in> set (candidates word_end ''t.from'')"
    then consider "u = ''t''" | "u = ''t.from''" unfolding c1 by auto
    then show "\<not> ci_eq w u"
    proof cases
      case 1
      with nt w show ?thesis by blast
    next
      case 2
      show ?thesis unfolding 2
        by (rule plain_not_ci_eq[OF pc w _ caseless_dot syntax_dot]) simp
    qed
  next
    show "\<not> word_end ''t.from''" by code_simp
  qed
  have f1: "getFunctionWordToken ?t ''t.from'' = None"
    by (rule function_None) code_simp
  have w1: "getNonReservedWordToken ?t ''t.from'' = Some ?t1" by code_simp
  have n1: "getNextToken ?t ''t.from'' None = Some ?t1"
    by (simp add: getNextToken_late[OF e1] r1 f1 w1)
  have n2: "getNextToken ?t ''.from'' (Some ?t1) = Some ?t2" by code_simp
  have e3: "no_early_match ?t ''from''" by code_simp
  have f3: "getFunctionWordToken ?t ''from'' = None"
    by (rule function_None) code_simp
  have w3: "getNonReservedWordToken ?t ''from'' = Some ?t3" by code_simp
  have n3: "getNextToken ?t ''from'' (Some ?t2) = Some ?t3"
    by (simp add: getNextToken_late[OF e3] reserved_after_dot f3 w3)
  have "tokenize ?t ''t.from'' = tokenize_loop ?t ''.from'' (Some ?t1) [?t1]"
    unfolding tokenize_def using tokenize_loop_step[OF n1, of "''t''" "[]"] by simp
  also have "\<dots> = tokenize_loop ?t ''from'' (Some ?t2) [?t1, ?t2]"
    using tokenize_loop_step[OF n2, of "''.''" "[?t1]"] by simp
  also have "\<dots> = tokenize_loop ?t [] (Some ?t3) [?t1, ?t2, ?t3]"
    using tokenize_loop_step[OF n3, of "''from''" "[?t1, ?t2]"] by simp
  finally have "tokenize ?t ''t.from'' = Some (Inr [?t1, ?t2, ?t3])"
    by (simp add: tokenize_loop_Nil)
  then show ?thesis by (simp add: reserved_after_dot)
qed

text \<open>The theorem at a configuration that meets its hypotheses.\<close>

theorem dot_suppression_witness:
  "plain_cfg \<lparr> reservedWords = [''as''], reservedToplevelWords = [''select'', ''from''],
               reservedNewlineWords = [''and''], functionWords = [''count''] \<rparr>
   \<and> tokenize (constructor \<lparr> reservedWords = [''as''], reservedToplevelWords = [''select'', ''from''],
               reservedNewlineWords = [''and''], functionWords = [''count''] \<rparr>) ''t.from''
           = Some (Inr [\<lparr> type = WORD, value = Some ''t'' \<rparr>,
                        \<lparr> type = BOUNDARY, value = Some ''.'' \<rparr>,
                        \<lparr> type = WORD, value = Some ''from'' \<rparr>])"
proof -
  let ?c = "\<lparr> reservedWords = [''as''], reservedToplevelWords = [''select'', ''from''],
               reservedNewlineWords = [''and''], functionWords = [''count''] \<rparr>"
  have h1: "plain_cfg ?c" by code_simp
  have h2: "''from'' \<in> set (reservedToplevelWords ?c)" by simp
  have h3: "\<forall>w \<in> set (reserved_keywords ?c). \<not> ci_eq w ''t''" by code_simp
  from dot_suppression[OF h1 h2 h3] h1 show ?thesis by blast
qed

text \<open>
  The claim as stated asks only for \<^verbatim>\<open>from\<close> among the toplevel words. With
  \<^verbatim>\<open>t\<close> as a reserved word the first token is \<open>RESERVED t\<close>, not \<open>WORD t\<close>.
\<close>

theorem dot_suppression_counterexample:
  "''from'' \<in> set (reservedToplevelWords
      \<lparr> reservedWords = [''t''], reservedToplevelWords = [''from''],
        reservedNewlineWords = [], functionWords = [] \<rparr>)
   \<and> tokenize (constructor \<lparr> reservedWords = [''t''], reservedToplevelWords = [''from''],
                              reservedNewlineWords = [], functionWords = [] \<rparr>) ''t.from''
       = Some (Inr [\<lparr> type = RESERVED, value = Some ''t'' \<rparr>,
                    \<lparr> type = BOUNDARY, value = Some ''.'' \<rparr>,
                    \<lparr> type = WORD, value = Some ''from'' \<rparr>])
   \<and> tokenize (constructor \<lparr> reservedWords = [''t''], reservedToplevelWords = [''from''],
                              reservedNewlineWords = [], functionWords = [] \<rparr>) ''t.from''
       \<noteq> Some (Inr [\<lparr> type = WORD, value = Some ''t'' \<rparr>,
                    \<lparr> type = BOUNDARY, value = Some ''.'' \<rparr>,
                    \<lparr> type = WORD, value = Some ''from'' \<rparr>])"
  by code_simp

text \<open>
  C10 (as amended). The suppression looks at the token just before the keyword only:
  after any previous token whose text is not exactly \<^verbatim>\<open>.\<close> the reserved-word
  matchers do what they do at the start of the input. For every configuration of plain
  keywords with
  \<^verbatim>\<open>from\<close> among the toplevel reserved words, \<^verbatim>\<open>tokenize("t. from")\<close> ends with
  \<open>RESERVED_TOPLEVEL from\<close>: the token before it is the white space, not the dot.
  (The kind of the first token depends on whether \<^verbatim>\<open>t\<close> is itself a reserved word.)
\<close>

theorem reserved_after_intervening_token:
  assumes pc: "plain_cfg c"
    and fr: "''from'' \<in> set (reservedToplevelWords c)"
  shows "(\<forall>input p. value p \<noteq> Some ''.'' \<longrightarrow>
            getReservedWordToken (constructor c) input (Some p)
              = getReservedWordToken (constructor c) input None)
       \<and> (\<exists>ty. tokenize (constructor c) ''t. from''
           = Some (Inr [\<lparr> type = ty, value = Some ''t'' \<rparr>,
                        \<lparr> type = BOUNDARY, value = Some ''.'' \<rparr>,
                        \<lparr> type = WHITESPACE, value = Some '' '' \<rparr>,
                        \<lparr> type = RESERVED_TOPLEVEL, value = Some ''from'' \<rparr>]))"
proof -
  have general: "getReservedWordToken (constructor c) input (Some p)
                   = getReservedWordToken (constructor c) input None"
    if "value p \<noteq> Some ''.''" for input p
    using that by (simp add: getReservedWordToken_def split: option.splits)
  let ?t = "constructor c"
  let ?t2 = "\<lparr> type = BOUNDARY, value = Some ''.'' \<rparr>"
  let ?t3 = "\<lparr> type = WHITESPACE, value = Some '' '' \<rparr>"
  let ?t4 = "\<lparr> type = RESERVED_TOPLEVEL, value = Some ''from'' \<rparr>"
  have e1: "no_early_match ?t ''t. from''" by code_simp
  have c1: "candidates word_end ''t. from'' = [''t'', ''t.'', ''t. from'']" by code_simp
  have f1: "getFunctionWordToken ?t ''t. from'' = None"
    by (rule function_None) code_simp
  have w1: "getNonReservedWordToken ?t ''t. from'' = Some \<lparr> type = WORD, value = Some ''t'' \<rparr>"
    by code_simp
  have "\<exists>ty. getNextToken ?t ''t. from'' None = Some \<lparr> type = ty, value = Some ''t'' \<rparr>"
  proof (cases "getReservedWordToken ?t ''t. from'' None")
    case None
    then show ?thesis by (simp add: getNextToken_late[OF e1] f1 w1)
  next
    case (Some tok)
    from reserved_SomeD[OF Some] obtain v where v: "value tok = Some v"
      and c: "v \<in> set (candidates word_end ''t. from'')"
      and k: "v = [] \<or> (\<exists>w \<in> set (reserved_keywords c). ci_eq w v)" by blast
    from c have "v = ''t'' \<or> v = ''t.'' \<or> v = ''t. from''" unfolding c1 by simp
    moreover have "v \<noteq> ''t.''"
    proof
      assume a: "v = ''t.''"
      with k obtain w where w: "w \<in> set (reserved_keywords c)" and "ci_eq w ''t.''" by auto
      with plain_not_ci_eq[OF pc w _ caseless_dot syntax_dot, of "''t.''"] show False by simp
    qed
    moreover have "v \<noteq> ''t. from''"
    proof
      assume a: "v = ''t. from''"
      with k obtain w where w: "w \<in> set (reserved_keywords c)" and "ci_eq w ''t. from''" by auto
      with plain_not_ci_eq[OF pc w _ caseless_dot syntax_dot, of "''t. from''"] show False by simp
    qed
    ultimately have "v = ''t''" by blast
    with v have "tok = \<lparr> type = type tok, value = Some ''t'' \<rparr>" by simp
    with Some show ?thesis by (simp add: getNextToken_late[OF e1]) metis
  qed
  then obtain ty where n1: "getNextToken ?t ''t. from'' None = Some \<lparr> type = ty, value = Some ''t'' \<rparr>"
    by blast
  let ?t1 = "\<lparr> type = ty, value = Some ''t'' \<rparr>"
  have "getNextToken ?t ''. from'' prev = Some ?t2" for prev by code_simp
  then have n2: "getNextToken ?t ''. from'' (Some ?t1) = Some ?t2" .
  have n3: "getNextToken ?t '' from'' (Some ?t2) = Some ?t3" by code_simp
  have e4: "no_early_match ?t ''from''" by code_simp
  have c4: "candidates word_end ''from'' = [''from'']" by code_simp
  have r4: "getReservedWordToken ?t ''from'' (Some ?t3) = Some ?t4"
    by (rule toplevel_Some[OF fr _ _ c4]) (simp_all add: word_end_def)
  have n4: "getNextToken ?t ''from'' (Some ?t3) = Some ?t4"
    by (simp add: getNextToken_late[OF e4] r4)
  have "tokenize ?t ''t. from'' = tokenize_loop ?t ''. from'' (Some ?t1) [?t1]"
    unfolding tokenize_def using tokenize_loop_step[OF n1, of "''t''" "[]"] by simp
  also have "\<dots> = tokenize_loop ?t '' from'' (Some ?t2) [?t1, ?t2]"
    using tokenize_loop_step[OF n2, of "''.''" "[?t1]"] by simp
  also have "\<dots> = tokenize_loop ?t ''from'' (Some ?t3) [?t1, ?t2, ?t3]"
    using tokenize_loop_step[OF n3, of "'' ''" "[?t1, ?t2]"] by simp
  also have "\<dots> = tokenize_loop ?t [] (Some ?t4) [?t1, ?t2, ?t3, ?t4]"
    using tokenize_loop_step[OF n4, of "''from''" "[?t1, ?t2, ?t3]"] by simp
  finally have "tokenize ?t ''t. from'' = Some (Inr [?t1, ?t2, ?t3, ?t4])"
    by (simp add: tokenize_loop_Nil)
  then have "\<exists>ty. tokenize ?t ''t. from''
           = Some (Inr [\<lparr> type = ty, value = Some ''t'' \<rparr>, ?t2, ?t3, ?t4])" by blast
  with general show ?thesis by blast
qed

text \<open>The theorem at a configuration that meets its hypotheses.\<close>

theorem reserved_after_intervening_token_witness:
  "plain_cfg \<lparr> reservedWords = [''as''], reservedToplevelWords = [''select'', ''from''],
               reservedNewlineWords = [''and''], functionWords = [''count''] \<rparr>
   \<and> (\<exists>ty. tokenize (constructor \<lparr> reservedWords = [''as''],
               reservedToplevelWords = [''select'', ''from''],
               reservedNewlineWords = [''and''], functionWords = [''count''] \<rparr>) ''t. from''
           = Some (Inr [\<lparr> type = ty, value = Some ''t'' \<rparr>,
                        \<lparr> type = BOUNDARY, value = Some ''.'' \<rparr>,
                        \<lparr> type = WHITESPACE, value = Some '' '' \<rparr>,
                        \<lparr> type = RESERVED_TOPLEVEL, value = Some ''from'' \<rparr>]))"
proof -
  let ?c = "\<lparr> reservedWords = [''as''], reservedToplevelWords = [''select'', ''from''],
               reservedNewlineWords = [''and''], functionWords = [''count''] \<rparr>"
  have h1: "plain_cfg ?c" by code_simp
  have h2: "''from'' \<in> set (reservedToplevelWords ?c)" by simp
  from reserved_after_intervening_token[OF h1 h2] have
    "\<exists>ty. tokenize (constructor ?c) ''t. from''
           = Some (Inr [\<lparr> type = ty, value = Some ''t'' \<rparr>,
                        \<lparr> type = BOUNDARY, value = Some ''.'' \<rparr>,
                        \<lparr> type = WHITESPACE, value = Some '' '' \<rparr>,
                        \<lparr> type = RESERVED_TOPLEVEL, value = Some ''from'' \<rparr>])"
    by (rule conjunct2)
  with h1 show ?thesis by (rule conjI)
qed

text \<open>
  The claim as stated asks only for \<^verbatim>\<open>from\<close> among the toplevel words. A keyword with
  a syntax character can take the whole input: with the phrase \<^verbatim>\<open>t. from\<close> as a
  reserved word \<^verbatim>\<open>tokenize("t. from")\<close> is one token of kind \<open>RESERVED\<close>, and no
  token \<^verbatim>\<open>from\<close> is classified at all.
\<close>

theorem reserved_after_intervening_token_counterexample:
  "''from'' \<in> set (reservedToplevelWords
      \<lparr> reservedWords = [''t. from''], reservedToplevelWords = [''from''],
        reservedNewlineWords = [], functionWords = [] \<rparr>)
   \<and> tokenize (constructor \<lparr> reservedWords = [''t. from''], reservedToplevelWords = [''from''],
                              reservedNewlineWords = [], functionWords = [] \<rparr>) ''t. from''
       = Some (Inr [\<lparr> type = RESERVED, value = Some ''t. from'' \<rparr>])"
  by code_simp

section \<open>Function words\<close>

text \<open>
  C8 (as amended). For every configuration of plain keywords with \<^verbatim>\<open>count\<close> among the
  function words in which no reserved-word list holds \<^verbatim>\<open>count\<close>, \<^verbatim>\<open>x\<close> or the phrase
  \<^verbatim>\<open>count x\<close> in any letter case, \<^verbatim>\<open>tokenize("count(")\<close> is exactly \<open>RESERVED count\<close>,
  \<open>BOUNDARY (\<close>, and \<^verbatim>\<open>tokenize("count x")\<close> is exactly \<open>WORD count\<close>, the white space,
  \<open>WORD x\<close>.
\<close>

theorem function_word_needs_paren:
  assumes pc: "plain_cfg c"
    and fn: "''count'' \<in> set (functionWords c)"
    and nr: "\<forall>w \<in> set (reserved_keywords c).
               \<not> ci_eq w ''count'' \<and> \<not> ci_eq w ''count x'' \<and> \<not> ci_eq w ''x''"
  shows "tokenize (constructor c) ''count(''
           = Some (Inr [\<lparr> type = RESERVED, value = Some ''count'' \<rparr>,
                        \<lparr> type = BOUNDARY, value = Some ''('' \<rparr>])
       \<and> tokenize (constructor c) ''count x''
           = Some (Inr [\<lparr> type = WORD, value = Some ''count'' \<rparr>,
                        \<lparr> type = WHITESPACE, value = Some '' '' \<rparr>,
                        \<lparr> type = WORD, value = Some ''x'' \<rparr>])"
proof -
  let ?t = "constructor c"
  let ?f = "\<lparr> type = RESERVED, value = Some ''count'' \<rparr>"
  let ?p = "\<lparr> type = BOUNDARY, value = Some ''('' \<rparr>"
  let ?w = "\<lparr> type = WORD, value = Some ''count'' \<rparr>"
  let ?s = "\<lparr> type = WHITESPACE, value = Some '' '' \<rparr>"
  let ?x = "\<lparr> type = WORD, value = Some ''x'' \<rparr>"
  have e1: "no_early_match ?t ''count(''" by code_simp
  have c1: "candidates word_end ''count('' = [''count'', ''count('']" by code_simp
  have r1: "getReservedWordToken ?t ''count('' None = None"
  proof (rule reserved_None)
    fix w u assume w: "w \<in> set (reserved_keywords c)"
      and "u \<in> set (candidates word_end ''count('')"
    then consider "u = ''count''" | "u = ''count(''" unfolding c1 by auto
    then show "\<not> ci_eq w u"
    proof cases
      case 1
      with nr w show ?thesis by blast
    next
      case 2
      show ?thesis unfolding 2
        by (rule plain_not_ci_eq[OF pc w _ caseless_paren syntax_paren]) simp
    qed
  next
    show "\<not> word_end ''count(''" by code_simp
  qed
  have d1: "candidates open_paren ''count('' = [''count'']" by code_simp
  have f1: "getFunctionWordToken ?t ''count('' = Some ?f"
    by (rule function_Some[OF fn _ _ d1]) (simp_all add: open_paren_def)
  have n1: "getNextToken ?t ''count('' None = Some ?f"
    by (simp add: getNextToken_late[OF e1] r1 f1)
  have n2: "getNextToken ?t ''('' (Some ?f) = Some ?p" by code_simp
  have "tokenize ?t ''count('' = tokenize_loop ?t ''('' (Some ?f) [?f]"
    unfolding tokenize_def using tokenize_loop_step[OF n1, of "''count''" "[]"] by simp
  also have "\<dots> = tokenize_loop ?t [] (Some ?p) [?f, ?p]"
    using tokenize_loop_step[OF n2, of "''(''" "[?f]"] by simp
  finally have A: "tokenize ?t ''count('' = Some (Inr [?f, ?p])"
    by (simp add: tokenize_loop_Nil)
  have e3: "no_early_match ?t ''count x''" by code_simp
  have c3: "candidates word_end ''count x'' = [''count'', ''count x'']" by code_simp
  have r3: "getReservedWordToken ?t ''count x'' None = None"
  proof (rule reserved_None)
    fix w u assume w: "w \<in> set (reserved_keywords c)"
      and "u \<in> set (candidates word_end ''count x'')"
    then have "u = ''count'' \<or> u = ''count x''" unfolding c3 by auto
    with nr w show "\<not> ci_eq w u" by blast
  next
    show "\<not> word_end ''count x''" by code_simp
  qed
  have f3: "getFunctionWordToken ?t ''count x'' = None"
    by (rule function_None) code_simp
  have w3: "getNonReservedWordToken ?t ''count x'' = Some ?w" by code_simp
  have n3: "getNextToken ?t ''count x'' None = Some ?w"
    by (simp add: getNextToken_late[OF e3] r3 f3 w3)
  have n4: "getNextToken ?t '' x'' (Some ?w) = Some ?s" by code_simp
  have e5: "no_early_match ?t ''x''" by code_simp
  have c5: "candidates word_end ''x'' = [''x'']" by code_simp
  have r5: "getReservedWordToken ?t ''x'' (Some ?s) = None"
  proof (rule reserved_None)
    fix w u assume w: "w \<in> set (reserved_keywords c)"
      and "u \<in> set (candidates word_end ''x'')"
    then have "u = ''x''" unfolding c5 by auto
    with nr w show "\<not> ci_eq w u" by blast
  next
    show "\<not> word_end ''x''" by code_simp
  qed
  have f5: "getFunctionWordToken ?t ''x'' = None"
    by (rule function_None) code_simp
  have w5: "getNonReservedWordToken ?t ''x'' = Some ?x" by code_simp
  have n5: "getNextToken ?t ''x'' (Some ?s) = Some ?x"
    by (simp add: getNextToken_late[OF e5] r5 f5 w5)
  have "tokenize ?t ''count x'' = tokenize_loop ?t '' x'' (Some ?w) [?w]"
    unfolding tokenize_def using tokenize_loop_step[OF n3, of "''count''" "[]"] by simp
  also have "\<dots> = tokenize_loop ?t ''x'' (Some ?s) [?w, ?s]"
    using tokenize_loop_step[OF n4, of "'' ''" "[?w]"] by simp
  also have "\<dots> = tokenize_loop ?t [] (Some ?x) [?w, ?s, ?x]"
    using tokenize_loop_step[OF n5, of "''x''" "[?w, ?s]"] by simp
  finally have B: "tokenize ?t ''count x'' = Some (Inr [?w, ?s, ?x])"
    by (simp add: tokenize_loop_Nil)
  from A B show ?thesis by blast
qed

text \<open>The theorem at a configuration that meets its hypotheses.\<close>

theorem function_word_needs_paren_witness:
  "plain_cfg \<lparr> reservedWords = [''as''], reservedToplevelWords = [''select'', ''from''],
               reservedNewlineWords = [''and''], functionWords = [''count''] \<rparr>
   \<and> tokenize (constructor \<lparr> reservedWords = [''as''],
               reservedToplevelWords = [''select'', ''from''],
               reservedNewlineWords = [''and''], functionWords = [''count''] \<rparr>) ''count(''
           = Some (Inr [\<lparr> type = RESERVED, value = Some ''count'' \<rparr>,
                        \<lparr> type = BOUNDARY, value = Some ''('' \<rparr>])"
proof -
  let ?c = "\<lparr> reservedWords = [''as''], reservedToplevelWords = [''select'', ''from''],
               reservedNewlineWords = [''and''], functionWords = [''count''] \<rparr>"
  have h1: "plain_cfg ?c" by code_simp
  have h2: "''count'' \<in> set (functionWords ?c)" by simp
  have h3: "\<forall>w \<in> set (reserved_keywords ?c).
               \<not> ci_eq w ''count'' \<and> \<not> ci_eq w ''count x'' \<and> \<not> ci_eq w ''x''"
    by code_simp
  from function_word_needs_paren[OF h1 h2 h3] h1 show ?thesis by blast
qed

text \<open>
  The claim as stated restricts only the word \<^verbatim>\<open>count\<close>. With \<^verbatim>\<open>x\<close> as a reserved
  word the last token of \<^verbatim>\<open>count x\<close> is \<open>RESERVED x\<close>, not \<open>WORD x\<close>.
\<close>

theorem function_word_needs_paren_counterexample:
  "''count'' \<in> set (functionWords
      \<lparr> reservedWords = [''x''], reservedToplevelWords = [],
        reservedNewlineWords = [], functionWords = [''count''] \<rparr>)
   \<and> ''count'' \<notin> set (reserved_keywords
      \<lparr> reservedWords = [''x''], reservedToplevelWords = [],
        reservedNewlineWords = [], functionWords = [''count''] \<rparr>)
   \<and> tokenize (constructor \<lparr> reservedWords = [''x''], reservedToplevelWords = [],
                              reservedNewlineWords = [], functionWords = [''count''] \<rparr>) ''count x''
       = Some (Inr [\<lparr> type = WORD, value = Some ''count'' \<rparr>,
                    \<lparr> type = WHITESPACE, value = Some '' '' \<rparr>,
                    \<lparr> type = RESERVED, value = Some ''x'' \<rparr>])
   \<and> tokenize (constructor \<lparr> reservedWords = [''x''], reservedToplevelWords = [],
                              reservedNewlineWords = [], functionWords = [''count''] \<rparr>) ''count x''
       \<noteq> Some (Inr [\<lparr> type = WORD, value = Some ''count'' \<rparr>,
                    \<lparr> type = WHITESPACE, value = Some '' '' \<rparr>,
                    \<lparr> type = WORD, value = Some ''x'' \<rparr>])"
  by code_simp

section \<open>Progress of the scan and its failures\<close>

text \<open>
  C2 (as amended). The code defines no \<^verbatim>\<open>LexError\<close>. For every configuration of plain
  keywords and every non-empty remaining input the matcher chain returns a token, and
  whenever the token has a text, the text is non-empty and taking it off shortens the
  remaining input.
\<close>

theorem chain_always_advances:
  assumes "plain_cfg c" and "input \<noteq> []"
  shows "\<exists>tok. getNextToken (constructor c) input prev = Some tok
           \<and> (\<forall>v. value tok = Some v \<longrightarrow>
                  v \<noteq> [] \<and> length (drop (length v) input) < length input)"
proof -
  from getNextToken_progress[OF assms] obtain tok where
    tok: "getNextToken (constructor c) input prev = Some tok" and ne: "value tok \<noteq> Some []"
    by blast
  have "v \<noteq> [] \<and> length (drop (length v) input) < length input" if "value tok = Some v" for v
  proof -
    from that ne have "1 \<le> length v" by (cases v) auto
    moreover from assms(2) have "1 \<le> length input" by (cases input) auto
    ultimately have "length input - length v < length input" by arith
    with that ne show ?thesis by auto
  qed
  with tok show ?thesis by blast
qed

text \<open>The theorem at a non-empty input.\<close>

theorem chain_always_advances_witness:
  "plain_cfg \<lparr> reservedWords = [''as''], reservedToplevelWords = [''select'', ''from''],
               reservedNewlineWords = [''and''], functionWords = [''count''] \<rparr>
   \<and> ''x'' \<noteq> []
   \<and> (\<exists>tok. getNextToken (constructor \<lparr> reservedWords = [''as''],
               reservedToplevelWords = [''select'', ''from''],
               reservedNewlineWords = [''and''], functionWords = [''count''] \<rparr>) ''x'' None
             = Some tok
           \<and> (\<forall>v. value tok = Some v \<longrightarrow>
                  v \<noteq> [] \<and> length (drop (length v) ''x'') < length ''x''))"
proof -
  let ?c = "\<lparr> reservedWords = [''as''], reservedToplevelWords = [''select'', ''from''],
               reservedNewlineWords = [''and''], functionWords = [''count''] \<rparr>"
  have h1: "plain_cfg ?c" by code_simp
  have h2: "''x'' \<noteq> []" by simp
  from chain_always_advances[OF h1 h2] h1 h2 show ?thesis by blast
qed

text \<open>
  The claim as stated fails on the input made of a single quote and a backslash. No rule
  before the fallback matches, \<^verbatim>\<open>STRING_REGEX\<close> included, and the fallback rule
  matches the empty text only; the quoted-string matcher still returns a token, with the
  value \<^verbatim>\<open>undefined\<close>, and \<^verbatim>\<open>tokenize\<close> ends in the \<^verbatim>\<open>TypeError\<close> of reading its
  length: not an error of the lexer, and no offset.
\<close>

theorem no_lex_error_counterexample:
  "[squote, backslash] \<noteq> []
   \<and> getWhitespaceToken (constructor \<lparr> reservedWords = [''as''],
         reservedToplevelWords = [''select'', ''from''], reservedNewlineWords = [''and''],
         functionWords = [''count''] \<rparr>) [squote, backslash] = None
   \<and> getCommentToken (constructor \<lparr> reservedWords = [''as''],
         reservedToplevelWords = [''select'', ''from''], reservedNewlineWords = [''and''],
         functionWords = [''count''] \<rparr>) [squote, backslash] = None
   \<and> getQuotedString (constructor \<lparr> reservedWords = [''as''],
         reservedToplevelWords = [''select'', ''from''], reservedNewlineWords = [''and''],
         functionWords = [''count''] \<rparr>) [squote, backslash] = None
   \<and> getVariableToken (constructor \<lparr> reservedWords = [''as''],
         reservedToplevelWords = [''select'', ''from''], reservedNewlineWords = [''and''],
         functionWords = [''count''] \<rparr>) [squote, backslash] = None
   \<and> getNumberToken (constructor \<lparr> reservedWords = [''as''],
         reservedToplevelWords = [''select'', ''from''], reservedNewlineWords = [''and''],
         functionWords = [''count''] \<rparr>) [squote, backslash] = None
   \<and> getBoundaryCharacterToken (constructor \<lparr> reservedWords = [''as''],
         reservedToplevelWords = [''select'', ''from''], reservedNewlineWords = [''and''],
         functionWords = [''count''] \<rparr>) [squote, backslash] = None
   \<and> getReservedWordToken (constructor \<lparr> reservedWords = [''as''],
         reservedToplevelWords = [''select'', ''from''], reservedNewlineWords = [''and''],
         functionWords = [''count''] \<rparr>) [squote, backslash] None = None
   \<and> getFunctionWordToken (constructor \<lparr> reservedWords = [''as''],
         reservedToplevelWords = [''select'', ''from''], reservedNewlineWords = [''and''],
         functionWords = [''count''] \<rparr>) [squote, backslash] = None
   \<and> getNonReservedWordToken (constructor \<lparr> reservedWords = [''as''],
         reservedToplevelWords = [''select'', ''from''], reservedNewlineWords = [''and''],
         functionWords = [''count''] \<rparr>) [squote, backslash]
       = Some \<lparr> type = WORD, value = Some [] \<rparr>
   \<and> getNextToken (constructor \<lparr> reservedWords = [''as''],
         reservedToplevelWords = [''select'', ''from''], reservedNewlineWords = [''and''],
         functionWords = [''count''] \<rparr>) [squote, backslash] None
       = Some \<lparr> type = QUOTE, value = None \<rparr>
   \<and> tokenize (constructor \<lparr> reservedWords = [''as''],
         reservedToplevelWords = [''select'', ''from''], reservedNewlineWords = [''and''],
         functionWords = [''count''] \<rparr>) [squote, backslash] = Some (Inl TypeError)"
  by code_simp

text \<open>
  C1. The round trip fails where \<^verbatim>\<open>STRING_REGEX\<close> does not match: a backslash at the
  end of the input (or before a line terminator) inside a quoted string. After
  \<^verbatim>\<open>@\<close> the missing match is concatenated as the text \<^verbatim>\<open>undefined\<close>, and
  \<^verbatim>\<open>tokenize\<close> returns a token whose text is no slice of the input.
\<close>

theorem round_trip_fails:
  "tokenize (constructor c) [CHR ''@'', squote, backslash]
     = Some (Inr [\<lparr> type = VARIABLE, value = Some ''@undefined'' \<rparr>])
   \<and> concat (map token_text [\<lparr> type = VARIABLE, value = Some ''@undefined'' \<rparr>])
       \<noteq> [CHR ''@'', squote, backslash]"
  by code_simp

text \<open>
  C3. The number rule as the constructor writes it. \<^verbatim>\<open>- 5\<close> is three tokens, since
  the sign may be followed by letters \<^verbatim>\<open>s\<close>, not by white space; a number before a
  single quote is no \<open>NUMBER\<close>, since the rule asks for the three quote characters in
  a row; \<^verbatim>\<open>2ndcolumn\<close> is no number.
\<close>

theorem number_rule_as_written:
  "tokenize (constructor c) ''- 5''
     = Some (Inr [\<lparr> type = BOUNDARY, value = Some ''-'' \<rparr>,
                  \<lparr> type = WHITESPACE, value = Some '' '' \<rparr>,
                  \<lparr> type = NUMBER, value = Some ''5'' \<rparr>])
   \<and> getNumberToken (constructor c) ''-ss5'' = Some \<lparr> type = NUMBER, value = Some ''-ss5'' \<rparr>
   \<and> getNumberToken (constructor c) [CHR ''5'', squote, CHR ''x'', squote] = None
   \<and> getNumberToken (constructor c) [CHR ''5'', dquote, squote, backtick]
       = Some \<lparr> type = NUMBER, value = Some ''5'' \<rparr>
   \<and> getNumberToken (constructor c) ''2ndcolumn'' = None"
  by code_simp

text \<open>
  C4. An unterminated quote whose content ends in a backslash, or has a backslash
  before a line terminator, makes \<^verbatim>\<open>tokenize\<close> fail; without the backslash the
  unterminated quote is one token up to the end of the input.
\<close>

theorem unterminated_quote_fails:
  "tokenize (constructor c) [squote, backslash] = Some (Inl TypeError)
   \<and> tokenize (constructor c) [dquote, CHR ''a'', backslash, newline, CHR ''b'', dquote]
       = Some (Inl TypeError)
   \<and> tokenize (constructor c) [squote, CHR ''a'']
       = Some (Inr [\<lparr> type = QUOTE, value = Some [squote, CHR ''a''] \<rparr>])"
  by code_simp

text \<open>
  C6. The loop always stops within as many iterations as the input has characters
  (\<open>tokenize_terminates\<close>), yet on the quote followed by a backslash it stops in its
  first iteration by raising, and does not return.
\<close>

theorem scan_stops_by_raising:
  "tokenize_steps 1 (constructor c) [squote, backslash] None [] = Some (Inl TypeError)
   \<and> tokenize (constructor c) [squote, backslash] \<noteq> Some (Inr toks)"
  by code_simp

section \<open>Empty keyword lists\<close>




end
